theory Spec2Isabelle
  imports Main "HOL-Library.Word"
begin

unbundle bit_operations_syntax

text \<open>
  The board of a Connect6 game: a codec from points with signed coordinates to
  32-bit indices (zigzag encoding, then bit interleaving), chunks of two-bit slots,
  a sparse grid of chunks, and a board that records the moves and moves a cursor
  along the record (undo, redo, jump). The definitions follow \<open>c6.ts\<close> function
  by function and keep its names; a method \<open>m\<close> of a class \<open>K\<close> is \<open>K_m\<close> where the
  bare name is taken. A method that changes its object returns the changed object
  beside its result.
\<close>

section \<open>JavaScript numbers and their bitwise operators\<close>

text \<open>
  The program is TypeScript. A \<open>number\<close> that holds an integer is modelled as an
  \<open>int\<close>. Every bitwise operator first converts its operands to 32 bits
  (\<open>ToInt32\<close>, the value modulo \<open>2 ^ 32\<close>), works on the bit pattern and reads
  the result back as a signed number; only \<open>>>>\<close> reads it back unsigned. A shift
  count is taken modulo 32.
\<close>

definition ToInt32 :: "int \<Rightarrow> 32 word" where
  "ToInt32 n = word_of_int n"

definition js_shl :: "int \<Rightarrow> int \<Rightarrow> int" where
  "js_shl a n = sint (push_bit (nat (n mod 32)) (ToInt32 a))"

definition js_sar :: "int \<Rightarrow> int \<Rightarrow> int" where
  "js_sar a n = sint (signed_drop_bit (nat (n mod 32)) (ToInt32 a))"

definition js_shr :: "int \<Rightarrow> int \<Rightarrow> int" where
  "js_shr a n = uint (drop_bit (nat (n mod 32)) (ToInt32 a))"

definition js_and :: "int \<Rightarrow> int \<Rightarrow> int" where
  "js_and a b = sint (ToInt32 a AND ToInt32 b)"

definition js_or :: "int \<Rightarrow> int \<Rightarrow> int" where
  "js_or a b = sint (ToInt32 a OR ToInt32 b)"

definition js_xor :: "int \<Rightarrow> int \<Rightarrow> int" where
  "js_xor a b = sint (ToInt32 a XOR ToInt32 b)"

definition js_not :: "int \<Rightarrow> int" where
  "js_not a = sint (NOT (ToInt32 a))"

text \<open>
  Reading an array outside its bounds gives \<open>undefined\<close> and does not throw; the
  throw comes when a property of that \<open>undefined\<close> is read.
\<close>

definition array_at :: "'a list \<Rightarrow> int \<Rightarrow> 'a option" where
  "array_at xs i = (if 0 \<le> i \<and> i < int (length xs) then Some (xs ! nat i) else None)"

text \<open>\<open>Array.prototype.splice(start)\<close> with one argument removes everything from
  \<open>start\<close> on; a negative \<open>start\<close> counts from the end.\<close>

definition splice :: "'a list \<Rightarrow> int \<Rightarrow> 'a list" where
  "splice xs start =
     (let len = int (length xs);
          k = (if start < 0 then max (len + start) 0 else min start len)
      in take (nat k) xs)"

text \<open>\<open>Array.prototype.slice(0, end)\<close>.\<close>

definition slice0 :: "'a list \<Rightarrow> int \<Rightarrow> 'a list" where
  "slice0 xs e =
     (let len = int (length xs);
          k = (if e < 0 then max (len + e) 0 else min e len)
      in take (nat k) xs)"

datatype error = TypeError

section \<open>Coordinate codec\<close>

text \<open>The fields \<open>x\<close> and \<open>y\<close> of a point are \<open>point_x\<close> and \<open>point_y\<close>.\<close>

datatype Point = Point (point_x: int) (point_y: int)

definition extract_lo_bits :: "int \<Rightarrow> int \<Rightarrow> int \<times> int" where
  "extract_lo_bits i bits = (js_shr i bits, js_and i (js_shl 1 bits - 1))"

definition zigzag_encode :: "int \<Rightarrow> int" where
  "zigzag_encode x = js_shr (js_xor (js_shl x 1) (js_sar x 31)) 0"

definition zigzag_decode :: "int \<Rightarrow> int" where
  "zigzag_decode x = js_sar (js_xor (js_shr x 1) (- (js_and x 1))) 0"

definition scatter :: "int \<Rightarrow> int" where
  "scatter x0 =
     (let x = js_and (js_or x0 (js_shl x0 8)) 0x00ff00ff;
          x = js_and (js_or x (js_shl x 4)) 0x0f0f0f0f;
          x = js_and (js_or x (js_shl x 2)) 0x33333333
      in js_and (js_or x (js_shl x 1)) 0x55555555)"

definition interleave :: "int \<Rightarrow> int \<Rightarrow> int" where
  "interleave x y = js_or (scatter x) (js_shl (scatter y) 1)"

definition gather :: "int \<Rightarrow> int" where
  "gather x0 =
     (let x = js_and x0 0x55555555;
          x = js_and (js_or x (js_shr x 1)) 0x33333333;
          x = js_and (js_or x (js_shr x 2)) 0x0f0f0f0f;
          x = js_and (js_or x (js_shr x 4)) 0x00ff00ff
      in js_and (js_or x (js_shr x 8)) 0x0000ffff)"

definition deinterleave :: "int \<Rightarrow> int \<times> int" where
  "deinterleave x = (gather x, gather (js_shr x 1))"

definition Point_index :: "Point \<Rightarrow> int" where
  "Point_index p =
     (let x = zigzag_encode (point_x p);
          y = zigzag_encode (point_y p)
      in interleave x y)"

definition Point_from_index :: "int \<Rightarrow> Point" where
  "Point_from_index i =
     (let (x, y) = deinterleave i
      in Point (zigzag_decode x) (zigzag_decode y))"

section \<open>Stones and chunks\<close>

datatype Stone = Black | White

text \<open>
  The enum's numbers: \<open>Stone.Black = 0\<close>, \<open>Stone.White = 1\<close>. \<open>Stone_of_num\<close> reads
  the number that \<open>last ^ 1\<close> computes in \<open>infer_turn\<close> as a stone again.
\<close>

definition Stone_num :: "Stone \<Rightarrow> int" where
  "Stone_num s = (case s of Black \<Rightarrow> 0 | White \<Rightarrow> 1)"

definition Stone_of_num :: "int \<Rightarrow> Stone" where
  "Stone_of_num n = (if n = 0 then Black else White)"

definition CHUNK_SIZE_BITS :: int where
  "CHUNK_SIZE_BITS = 4"

definition CHUNK_SIZE :: int where
  "CHUNK_SIZE = js_shl 1 CHUNK_SIZE_BITS"

text \<open>The division is exact: \<open>16 * 16 * 2 / 32 = 16\<close>.\<close>

definition WORDS_PER_CHUNK :: int where
  "WORDS_PER_CHUNK = CHUNK_SIZE * CHUNK_SIZE * 2 div 32"

definition SLOT_INDEX_BITS :: int where
  "SLOT_INDEX_BITS = 4"

definition WORD_INDEX_BITS :: int where
  "WORD_INDEX_BITS = CHUNK_SIZE_BITS * 2 - SLOT_INDEX_BITS"

definition Point_indexes :: "Point \<Rightarrow> int \<times> int \<times> int" where
  "Point_indexes p =
     (let i = Point_index p;
          (i, slot_i) = extract_lo_bits i SLOT_INDEX_BITS;
          (i, word_i) = extract_lo_bits i WORD_INDEX_BITS
      in (i, word_i, slot_i))"

text \<open>
  A chunk is a \<open>Uint32Array\<close> of \<open>WORDS_PER_CHUNK\<close> words. Reading it outside its
  bounds gives \<open>undefined\<close>, which every bitwise operator the chunk applies to the
  word takes as 0; writing outside its bounds is ignored; the value written is
  reduced modulo \<open>2 ^ 32\<close>.
\<close>

record Chunk =
  words :: "32 word list"

definition Chunk_new :: Chunk where
  "Chunk_new = \<lparr>words = replicate (nat WORDS_PER_CHUNK) 0\<rparr>"

definition words_read :: "Chunk \<Rightarrow> int \<Rightarrow> int" where
  "words_read c i =
     (if 0 \<le> i \<and> i < int (length (words c)) then uint (words c ! nat i) else 0)"

definition words_write :: "Chunk \<Rightarrow> int \<Rightarrow> int \<Rightarrow> Chunk" where
  "words_write c i v =
     (if 0 \<le> i \<and> i < int (length (words c))
      then c\<lparr>words := (words c)[nat i := word_of_int v]\<rparr> else c)"

definition Chunk_get :: "Chunk \<Rightarrow> int \<Rightarrow> int \<Rightarrow> Stone option" where
  "Chunk_get c word_i slot_i =
     (let word = words_read c word_i;
          v = js_and (js_shr word (slot_i * 2)) 3
      in if v = 0 then None else if v = 1 then Some Black else Some White)"

definition Chunk_set :: "Chunk \<Rightarrow> int \<Rightarrow> int \<Rightarrow> Stone \<Rightarrow> bool \<times> Chunk" where
  "Chunk_set c word_i slot_i stone =
     (let word = words_read c word_i
      in if js_and (js_shr word (slot_i * 2)) 3 \<noteq> 0 then (False, c)
         else (True,
               words_write c word_i (js_or word (js_shl 1 (slot_i * 2 + Stone_num stone)))))"

definition Chunk_unset :: "Chunk \<Rightarrow> int \<Rightarrow> int \<Rightarrow> Stone option \<times> Chunk" where
  "Chunk_unset c word_i slot_i =
     (let word = words_read c word_i;
          c' = words_write c word_i (js_and word (js_not (js_shl 3 (slot_i * 2))));
          v = js_and (js_shr word (slot_i * 2)) 3
      in (if v = 0 then None else if v = 1 then Some Black else Some White, c'))"

section \<open>The sparse grid\<close>

text \<open>
  The chunk objects are reachable only through the map, so a chunk changed in place
  is stored back under its key.
\<close>

record RawBoard =
  chunks :: "int \<rightharpoonup> Chunk"

definition RawBoard_new :: RawBoard where
  "RawBoard_new = \<lparr>chunks = Map.empty\<rparr>"

definition RawBoard_chunk :: "RawBoard \<Rightarrow> int \<Rightarrow> Chunk option" where
  "RawBoard_chunk g chunk_i = chunks g chunk_i"

definition RawBoard_chunk_or_default :: "RawBoard \<Rightarrow> int \<Rightarrow> Chunk \<times> RawBoard" where
  "RawBoard_chunk_or_default g chunk_i =
     (case chunks g chunk_i of
        None \<Rightarrow> (Chunk_new, g\<lparr>chunks := (chunks g)(chunk_i \<mapsto> Chunk_new)\<rparr>)
      | Some chunk \<Rightarrow> (chunk, g))"

definition RawBoard_get :: "RawBoard \<Rightarrow> Point \<Rightarrow> Stone option" where
  "RawBoard_get g point =
     (let (chunk_i, word_i, slot_i) = Point_indexes point
      in case RawBoard_chunk g chunk_i of
           None \<Rightarrow> None
         | Some chunk \<Rightarrow> Chunk_get chunk word_i slot_i)"

definition RawBoard_set :: "RawBoard \<Rightarrow> Point \<Rightarrow> Stone \<Rightarrow> bool \<times> RawBoard" where
  "RawBoard_set g point stone =
     (let (chunk_i, word_i, slot_i) = Point_indexes point;
          (chunk, g1) = RawBoard_chunk_or_default g chunk_i;
          (ok, chunk') = Chunk_set chunk word_i slot_i stone
      in (ok, g1\<lparr>chunks := (chunks g1)(chunk_i \<mapsto> chunk')\<rparr>))"

definition RawBoard_unset :: "RawBoard \<Rightarrow> Point \<Rightarrow> Stone option \<times> RawBoard" where
  "RawBoard_unset g point =
     (let (chunk_i, word_i, slot_i) = Point_indexes point
      in case RawBoard_chunk g chunk_i of
           None \<Rightarrow> (None, g)
         | Some chunk \<Rightarrow>
             (let (r, chunk') = Chunk_unset chunk word_i slot_i
              in (r, g\<lparr>chunks := (chunks g)(chunk_i \<mapsto> chunk')\<rparr>)))"

section \<open>The board with its record\<close>

text \<open>
  \<open>Board_record\<close> is the field \<open>record\<close> and \<open>Board_index\<close> the field \<open>_index\<close>.
  Reading \<open>record[i]\<close> outside the record gives \<open>undefined\<close>; the methods then read
  a component of it, which throws a \<open>TypeError\<close>: the result is then
  \<open>Inl TypeError\<close>. \<open>unset\<close>, \<open>reset\<close> and \<open>infer_turn\<close> do not throw while the cursor
  lies within the record; for \<open>jump\<close>, which does, \<open>Board_jump_object\<close> gives the
  object after the throw. The variable \<open>last\<close> of the source is \<open>last'\<close> here.
\<close>

record Board =
  Board_board :: RawBoard
  Board_record :: "(Point \<times> Stone) list"
  Board_index :: int

definition Board_new :: Board where
  "Board_new = \<lparr>Board_board = RawBoard_new, Board_record = [], Board_index = 0\<rparr>"

definition total_count :: "Board \<Rightarrow> int" where
  "total_count b = int (length (Board_record b))"

definition is_empty :: "Board \<Rightarrow> bool" where
  "is_empty b = (Board_index b = 0)"

definition Board_get :: "Board \<Rightarrow> Point \<Rightarrow> Stone option" where
  "Board_get b point = RawBoard_get (Board_board b) point"

definition past_record :: "Board \<Rightarrow> (Point \<times> Stone) list" where
  "past_record b = slice0 (Board_record b) (Board_index b)"

definition Board_set :: "Board \<Rightarrow> Point \<Rightarrow> Stone \<Rightarrow> bool \<times> Board" where
  "Board_set b point stone =
     (let (ok, g) = RawBoard_set (Board_board b) point stone
      in if \<not> ok then (False, b\<lparr>Board_board := g\<rparr>)
         else (True,
               b\<lparr>Board_board := g,
                 Board_record := splice (Board_record b) (Board_index b) @ [(point, stone)],
                 Board_index := Board_index b + 1\<rparr>))"

definition from_record :: "(Point \<times> Stone) list \<Rightarrow> Board" where
  "from_record rec =
     fold (\<lambda>move b. snd (Board_set b (Point (point_x (fst move)) (point_y (fst move))) (snd move)))
       rec Board_new"

definition Board_unset :: "Board \<Rightarrow> error + ((Point \<times> Stone) option \<times> Board)" where
  "Board_unset b =
     (if Board_index b = 0 then Inr (None, b)
      else let i = Board_index b - 1
           in case array_at (Board_record b) i of
                None \<Rightarrow> Inl TypeError
              | Some last' \<Rightarrow>
                  Inr (Some last',
                       b\<lparr>Board_index := i,
                         Board_board := snd (RawBoard_unset (Board_board b) (fst last'))\<rparr>))"

definition Board_reset :: "Board \<Rightarrow> error + ((Point \<times> Stone) option \<times> Board)" where
  "Board_reset b =
     (if Board_index b \<ge> int (length (Board_record b)) then Inr (None, b)
      else case array_at (Board_record b) (Board_index b) of
             None \<Rightarrow> Inl TypeError
           | Some next \<Rightarrow>
               Inr (Some next,
                    b\<lparr>Board_index := Board_index b + 1,
                      Board_board := snd (RawBoard_set (Board_board b) (fst next) (snd next))\<rparr>))"

text \<open>The two loops of \<open>jump\<close>, each with its loop variable \<open>i\<close>.\<close>

function jump_set :: "RawBoard \<Rightarrow> (Point \<times> Stone) list \<Rightarrow> int \<Rightarrow> int \<Rightarrow> error + RawBoard" where
  "jump_set g rec i index =
     (if i < index
      then (case array_at rec i of
              None \<Rightarrow> Inl TypeError
            | Some next \<Rightarrow> jump_set (snd (RawBoard_set g (fst next) (snd next))) rec (i + 1) index)
      else Inr g)"
  by pat_completeness auto
termination
  by (relation "measure (\<lambda>(g, rec, i, index). nat (index - i))") auto

function jump_unset :: "RawBoard \<Rightarrow> (Point \<times> Stone) list \<Rightarrow> int \<Rightarrow> int \<Rightarrow> error + RawBoard" where
  "jump_unset g rec i index =
     (if i \<ge> index
      then (case array_at rec i of
              None \<Rightarrow> Inl TypeError
            | Some last' \<Rightarrow> jump_unset (snd (RawBoard_unset g (fst last'))) rec (i - 1) index)
      else Inr g)"
  by pat_completeness auto
termination
  by (relation "measure (\<lambda>(g, rec, i, index). nat (i - index + 1))") auto

definition Board_jump :: "Board \<Rightarrow> int \<Rightarrow> error + Board" where
  "Board_jump b index =
     (if index > int (length (Board_record b)) then Inr b
      else if Board_index b < index
      then (case jump_set (Board_board b) (Board_record b) (Board_index b) index of
              Inl e \<Rightarrow> Inl e
            | Inr g \<Rightarrow> Inr (b\<lparr>Board_board := g, Board_index := index\<rparr>))
      else (case jump_unset (Board_board b) (Board_record b) (Board_index b - 1) index of
              Inl e \<Rightarrow> Inl e
            | Inr g \<Rightarrow> Inr (b\<lparr>Board_board := g, Board_index := index\<rparr>)))"

text \<open>
  The object that a call of \<open>jump\<close> leaves behind, with the error when the call
  throws: the loops have changed the grid up to the throw, and the assignment
  \<open>this._index = index\<close> after them has not run. \<open>Board_jump\<close> above is the result
  of the same call (\<open>Board_jump_object_result\<close>).
\<close>

function jump_set_object :: "RawBoard \<Rightarrow> (Point \<times> Stone) list \<Rightarrow> int \<Rightarrow> int \<Rightarrow> RawBoard \<times> error option" where
  "jump_set_object g rec i index =
     (if i < index
      then (case array_at rec i of
              None \<Rightarrow> (g, Some TypeError)
            | Some next \<Rightarrow>
                jump_set_object (snd (RawBoard_set g (fst next) (snd next))) rec (i + 1) index)
      else (g, None))"
  by pat_completeness auto
termination
  by (relation "measure (\<lambda>(g, rec, i, index). nat (index - i))") auto

function jump_unset_object :: "RawBoard \<Rightarrow> (Point \<times> Stone) list \<Rightarrow> int \<Rightarrow> int \<Rightarrow> RawBoard \<times> error option" where
  "jump_unset_object g rec i index =
     (if i \<ge> index
      then (case array_at rec i of
              None \<Rightarrow> (g, Some TypeError)
            | Some last' \<Rightarrow>
                jump_unset_object (snd (RawBoard_unset g (fst last'))) rec (i - 1) index)
      else (g, None))"
  by pat_completeness auto
termination
  by (relation "measure (\<lambda>(g, rec, i, index). nat (i - index + 1))") auto

definition Board_jump_object :: "Board \<Rightarrow> int \<Rightarrow> Board \<times> error option" where
  "Board_jump_object b index =
     (if index > int (length (Board_record b)) then (b, None)
      else if Board_index b < index
      then (case jump_set_object (Board_board b) (Board_record b) (Board_index b) index of
              (g, Some e) \<Rightarrow> (b\<lparr>Board_board := g\<rparr>, Some e)
            | (g, None) \<Rightarrow> (b\<lparr>Board_board := g, Board_index := index\<rparr>, None))
      else (case jump_unset_object (Board_board b) (Board_record b) (Board_index b - 1) index of
              (g, Some e) \<Rightarrow> (b\<lparr>Board_board := g\<rparr>, Some e)
            | (g, None) \<Rightarrow> (b\<lparr>Board_board := g, Board_index := index\<rparr>, None)))"

definition infer_turn :: "Board \<Rightarrow> error + (Stone \<times> bool)" where
  "infer_turn b =
     (if Board_index b = 0 then Inr (Black, True)
      else case array_at (Board_record b) (Board_index b - 1) of
             None \<Rightarrow> Inl TypeError
           | Some e1 \<Rightarrow>
               (let last' = snd e1
                in if Board_index b = 1 then Inr (White, last' = White)
                   else case array_at (Board_record b) (Board_index b - 2) of
                          None \<Rightarrow> Inl TypeError
                        | Some e2 \<Rightarrow>
                            (let last_prev = snd e2
                             in if last' = last_prev
                                then Inr (Stone_of_num (js_xor (Stone_num last') 1), False)
                                else Inr (last', True))))"

section \<open>Sequences of operations\<close>

text \<open>
  A sequence of calls on a board runs until a call throws; \<open>Inr b\<close> is the board
  after the whole sequence.
\<close>

datatype board_op = Op_set Point Stone | Op_unset | Op_reset | Op_jump int

fun apply_op :: "Board \<Rightarrow> board_op \<Rightarrow> error + Board" where
  "apply_op b (Op_set p s) = Inr (snd (Board_set b p s))"
| "apply_op b Op_unset = (case Board_unset b of Inl e \<Rightarrow> Inl e | Inr (r, b') \<Rightarrow> Inr b')"
| "apply_op b Op_reset = (case Board_reset b of Inl e \<Rightarrow> Inl e | Inr (r, b') \<Rightarrow> Inr b')"
| "apply_op b (Op_jump i) = Board_jump b i"

fun run_ops :: "Board \<Rightarrow> board_op list \<Rightarrow> error + Board" where
  "run_ops b [] = Inr b"
| "run_ops b (x # xs) = (case apply_op b x of Inl e \<Rightarrow> Inl e | Inr b' \<Rightarrow> run_ops b' xs)"

text \<open>A \<open>jump\<close> whose target is not negative.\<close>

fun jump_target_ok :: "board_op \<Rightarrow> bool" where
  "jump_target_ok (Op_jump T) = (0 \<le> T)"
| "jump_target_ok x = True"

text \<open>
  Reaching a target cursor by single steps: \<open>reset\<close> (redo) while the cursor is
  below the target, \<open>unset\<close> (undo) while it is above.
\<close>

fun undo_times :: "nat \<Rightarrow> Board \<Rightarrow> error + Board" where
  "undo_times 0 b = Inr b"
| "undo_times (Suc n) b = (case Board_unset b of Inl e \<Rightarrow> Inl e | Inr (r, b') \<Rightarrow> undo_times n b')"

fun redo_times :: "nat \<Rightarrow> Board \<Rightarrow> error + Board" where
  "redo_times 0 b = Inr b"
| "redo_times (Suc n) b = (case Board_reset b of Inl e \<Rightarrow> Inl e | Inr (r, b') \<Rightarrow> redo_times n b')"

definition walk_to :: "Board \<Rightarrow> int \<Rightarrow> error + Board" where
  "walk_to b T =
     (if Board_index b < T then redo_times (nat (T - Board_index b)) b
      else undo_times (nat (Board_index b - T)) b)"

text \<open>
  Sequences of \<open>set\<close> and \<open>unset\<close> on a grid, from the empty grid; whether a sequence
  ever sets a given point, and whether it ever sets a point with a given index.
\<close>

datatype grid_op = Grid_set Point Stone | Grid_unset Point

fun grid_apply :: "RawBoard \<Rightarrow> grid_op \<Rightarrow> RawBoard" where
  "grid_apply g (Grid_set p s) = snd (RawBoard_set g p s)"
| "grid_apply g (Grid_unset p) = snd (RawBoard_unset g p)"

definition grid_run :: "grid_op list \<Rightarrow> RawBoard" where
  "grid_run ops = foldl grid_apply RawBoard_new ops"

fun sets_point :: "Point \<Rightarrow> grid_op \<Rightarrow> bool" where
  "sets_point p (Grid_set q s) = (q = p)"
| "sets_point p (Grid_unset q) = False"

fun never_set :: "Point \<Rightarrow> grid_op list \<Rightarrow> bool" where
  "never_set p [] = True"
| "never_set p (x # xs) = (\<not> sets_point p x \<and> never_set p xs)"

fun sets_index :: "Point \<Rightarrow> grid_op \<Rightarrow> bool" where
  "sets_index p (Grid_set q s) = (Point_index q = Point_index p)"
| "sets_index p (Grid_unset q) = False"

fun never_set_index :: "Point \<Rightarrow> grid_op list \<Rightarrow> bool" where
  "never_set_index p [] = True"
| "never_set_index p (x # xs) = (\<not> sets_index p x \<and> never_set_index p xs)"

section \<open>Auxiliary notions\<close>

text \<open>The codec on bit patterns: what the functions above do to the 32-bit words.\<close>

definition scatter_w :: "32 word \<Rightarrow> 32 word" where
  "scatter_w x0 =
     (let x = (x0 OR push_bit 8 x0) AND 0x00ff00ff;
          x = (x OR push_bit 4 x) AND 0x0f0f0f0f;
          x = (x OR push_bit 2 x) AND 0x33333333
      in (x OR push_bit 1 x) AND 0x55555555)"

definition gather_w :: "32 word \<Rightarrow> 32 word" where
  "gather_w x0 =
     (let x = x0 AND 0x55555555;
          x = (x OR drop_bit 1 x) AND 0x33333333;
          x = (x OR drop_bit 2 x) AND 0x0f0f0f0f;
          x = (x OR drop_bit 4 x) AND 0x00ff00ff
      in (x OR drop_bit 8 x) AND 0x0000ffff)"

definition zigzag_encode_w :: "32 word \<Rightarrow> 32 word" where
  "zigzag_encode_w w = push_bit 1 w XOR signed_drop_bit 31 w"

definition zigzag_decode_w :: "32 word \<Rightarrow> 32 word" where
  "zigzag_decode_w v = drop_bit 1 v XOR - (v AND 1)"

definition interleave_w :: "32 word \<Rightarrow> 32 word \<Rightarrow> 32 word" where
  "interleave_w a b = scatter_w a OR push_bit 1 (scatter_w b)"

definition fits16 :: "32 word \<Rightarrow> bool" where
  "fits16 a = (\<forall>n\<ge>16. \<not> bit a n)"

text \<open>
  The two bits of a slot in a word, the stone they stand for, and a chunk read and
  written by word.
\<close>

definition slot_w :: "32 word \<Rightarrow> nat \<Rightarrow> 32 word" where
  "slot_w W k = drop_bit (2 * k) W AND 3"

definition stone_of_slot :: "32 word \<Rightarrow> Stone option" where
  "stone_of_slot v = (if v = 0 then None else if v = 1 then Some Black else Some White)"

definition word_of :: "Chunk \<Rightarrow> int \<Rightarrow> 32 word" where
  "word_of c i = (if 0 \<le> i \<and> i < int (length (words c)) then words c ! nat i else 0)"

definition store :: "Chunk \<Rightarrow> int \<Rightarrow> 32 word \<Rightarrow> Chunk" where
  "store c i X =
     (if 0 \<le> i \<and> i < int (length (words c)) then c\<lparr>words := (words c)[nat i := X]\<rparr>
      else c)"

text \<open>
  The invariants. Every chunk of a grid has the \<open>WORDS_PER_CHUNK\<close> words it was
  created with. On a board the cursor lies within the record, no two entries of the
  record have the same indexes, and the grid holds at each point what the entries
  below the cursor say (\<open>played\<close>).
\<close>

definition RawBoard_wf :: "RawBoard \<Rightarrow> bool" where
  "RawBoard_wf g = (\<forall>i c. chunks g i = Some c \<longrightarrow> length (words c) = nat WORDS_PER_CHUNK)"

definition cell :: "RawBoard \<Rightarrow> int \<times> int \<times> int \<Rightarrow> Stone option" where
  "cell g t =
     (case t of (ci, wi, si) \<Rightarrow>
        (case chunks g ci of
           None \<Rightarrow> None
         | Some c \<Rightarrow> stone_of_slot (slot_w (word_of c wi) (nat si))))"

definition in_chunk :: "int \<times> int \<times> int \<Rightarrow> bool" where
  "in_chunk t = (case t of (ci, wi, si) \<Rightarrow> 0 \<le> wi \<and> wi < 16 \<and> 0 \<le> si \<and> si < 16)"

definition keys_of :: "(Point \<times> Stone) list \<Rightarrow> (int \<times> int \<times> int) list" where
  "keys_of es = map (\<lambda>e. Point_indexes (fst e)) es"

definition played :: "(Point \<times> Stone) list \<Rightarrow> Point \<Rightarrow> Stone option" where
  "played es p = map_of (map (\<lambda>e. (Point_indexes (fst e), snd e)) es) (Point_indexes p)"

definition Board_inv :: "Board \<Rightarrow> bool" where
  "Board_inv b =
     (RawBoard_wf (Board_board b)
      \<and> 0 \<le> Board_index b \<and> Board_index b \<le> int (length (Board_record b))
      \<and> distinct (keys_of (Board_record b))
      \<and> (\<forall>p. RawBoard_get (Board_board b) p = played (take (nat (Board_index b)) (Board_record b)) p))"

declare jump_set.simps [simp del] jump_unset.simps [simp del]

declare jump_set_object.simps [simp del] jump_unset_object.simps [simp del]

section \<open>The codec on bit patterns\<close>

lemma ToInt32_sint [simp]: "ToInt32 (sint w) = w"
  by (simp add: ToInt32_def)

lemma ToInt32_uint [simp]: "ToInt32 (uint w) = w"
  by (simp add: ToInt32_def)

lemma ToInt32_numeral [simp]: "ToInt32 (numeral n) = numeral n"
  by (simp add: ToInt32_def)

lemma ToInt32_0 [simp]: "ToInt32 0 = 0"
  by (simp add: ToInt32_def)

lemma ToInt32_1 [simp]: "ToInt32 1 = 1"
  by (simp add: ToInt32_def)

lemma ToInt32_minus [simp]: "ToInt32 (- a) = - ToInt32 a"
  by (simp add: ToInt32_def)

lemma ToInt32_diff [simp]: "ToInt32 (a - b) = ToInt32 a - ToInt32 b"
  by (simp add: ToInt32_def)

lemma ToInt32_js [simp]:
  "ToInt32 (js_and a b) = ToInt32 a AND ToInt32 b"
  "ToInt32 (js_or a b) = ToInt32 a OR ToInt32 b"
  "ToInt32 (js_xor a b) = ToInt32 a XOR ToInt32 b"
  "ToInt32 (js_not a) = NOT (ToInt32 a)"
  "ToInt32 (js_shl a n) = push_bit (nat (n mod 32)) (ToInt32 a)"
  "ToInt32 (js_shr a n) = drop_bit (nat (n mod 32)) (ToInt32 a)"
  "ToInt32 (js_sar a n) = signed_drop_bit (nat (n mod 32)) (ToInt32 a)"
  by (simp_all add: js_and_def js_or_def js_xor_def js_not_def js_shl_def js_shr_def js_sar_def)

lemma shift_counts:
  "nat ((0::int) mod 32) = 0" "nat ((1::int) mod 32) = 1" "nat ((2::int) mod 32) = 2"
  "nat ((4::int) mod 32) = 4" "nat ((8::int) mod 32) = 8" "nat ((31::int) mod 32) = 31"
  by simp_all

lemma ToInt32_scatter: "ToInt32 (scatter x) = scatter_w (ToInt32 x)"
  by (simp only: scatter_def scatter_w_def Let_def ToInt32_js ToInt32_numeral shift_counts)

lemma ToInt32_gather: "ToInt32 (gather x) = gather_w (ToInt32 x)"
  by (simp only: gather_def gather_w_def Let_def ToInt32_js ToInt32_numeral shift_counts)

lemma ToInt32_zigzag_encode: "ToInt32 (zigzag_encode x) = zigzag_encode_w (ToInt32 x)"
  by (simp add: zigzag_encode_def zigzag_encode_w_def)

lemma zigzag_decode_eq: "zigzag_decode x = sint (zigzag_decode_w (ToInt32 x))"
  by (simp add: zigzag_decode_def zigzag_decode_w_def js_sar_def)

lemma sdb31: "signed_drop_bit 31 (w::32 word) = (if bit w 31 then - 1 else 0)"
  by (rule bit_word_eqI) (auto simp add: bit_signed_drop_bit_iff not_le)

lemma eq31: "n < 32 \<Longrightarrow> \<not> n < 31 \<Longrightarrow> n = (31::nat)"
  by arith

lemma bit_push1: "bit (push_bit 1 (w::32 word)) n = (0 < n \<and> n < 32 \<and> bit w (n - 1))"
  unfolding bit_push_bit_iff by auto

lemma zigzag_w_roundtrip: "zigzag_decode_w (zigzag_encode_w w) = w"
proof (cases "bit w 31")
  case True
  have e: "zigzag_encode_w w = NOT (push_bit 1 w)"
    by (simp only: zigzag_encode_w_def sdb31 True if_True bit.xor_one_right)
  have o: "NOT (push_bit 1 w) AND 1 = 1"
    by (rule bit_word_eqI) (simp only: bit_and_iff bit_not_iff bit_push1 bit_1_iff, auto)
  show ?thesis
    unfolding zigzag_decode_w_def e o
    apply (rule bit_word_eqI)
    apply (simp only: bit_xor_iff bit_drop_bit_eq bit_not_iff bit_push1 bit_minus_1_iff comp_def)
    using True apply (auto dest: eq31)
    done
next
  case False
  have e: "zigzag_encode_w w = push_bit 1 w"
    by (simp only: zigzag_encode_w_def sdb31 False if_False xor.right_neutral)
  have o: "push_bit 1 w AND 1 = 0"
    by (rule bit_word_eqI) (simp only: bit_and_iff bit_not_iff bit_push1 bit_1_iff, auto)
  show ?thesis
    unfolding zigzag_decode_w_def e o
    apply (rule bit_word_eqI)
    apply (simp only: bit_xor_iff bit_drop_bit_eq bit_not_iff bit_push1 bit_minus_1_iff comp_def)
    using False apply (auto dest: eq31)
    done
qed

lemma all_less_32:
  "(\<forall>n<32. P (n::nat)) =
     (P 0 \<and> P 1 \<and> P 2 \<and> P 3 \<and> P 4 \<and> P 5 \<and> P 6 \<and> P 7
      \<and> P 8 \<and> P 9 \<and> P 10 \<and> P 11 \<and> P 12 \<and> P 13 \<and> P 14 \<and> P 15
      \<and> P 16 \<and> P 17 \<and> P 18 \<and> P 19 \<and> P 20 \<and> P 21 \<and> P 22 \<and> P 23
      \<and> P 24 \<and> P 25 \<and> P 26 \<and> P 27 \<and> P 28 \<and> P 29 \<and> P 30 \<and> P 31)"
  by (simp add: eval_nat_numeral All_less_Suc conj_ac)

lemma bit_scatter_w_aux: "\<forall>n<32. bit (scatter_w x) n = (even n \<and> (bit x (n div 2) \<or> (8 \<le> n div 2 \<and> bit x (n div 2 + 8))))"
  unfolding scatter_w_def Let_def
  apply (simp only: all_less_32 bit_and_iff bit_or_iff bit_push_bit_iff)
  apply (simp add: disj_commute)
  done

lemma bit_gather_w_aux: "\<forall>n<32. bit (gather_w x) n = (n < 16 \<and> bit x (2 * n))"
  unfolding gather_w_def Let_def
  apply (simp only: all_less_32)
  apply (simp add: bit_simps)
  apply (simp add: numeral_2_eq_2)
  done

lemma bit_scatter_w:
  "bit (scatter_w x) n = (n < 32 \<and> even n \<and> (bit x (n div 2) \<or> (8 \<le> n div 2 \<and> bit x (n div 2 + 8))))"
  using bit_scatter_w_aux [of x] bit_imp_le_length [of "scatter_w x" n] by (cases "n < 32") auto

lemma bit_gather_w: "bit (gather_w x) n = (n < 16 \<and> bit x (2 * n))"
  using bit_gather_w_aux [of x] bit_imp_le_length [of "gather_w x" n] by (cases "n < 32") auto

lemma fits16D: "fits16 a \<Longrightarrow> bit a n \<Longrightarrow> n < 16"
  by (rule ccontr) (simp add: fits16_def not_less)

lemma bit_interleave_w:
  "fits16 a \<Longrightarrow> fits16 b \<Longrightarrow>
   bit (interleave_w a b) n = (n < 32 \<and> (if even n then bit a (n div 2) else bit b (n div 2)))"
  unfolding interleave_w_def bit_or_iff bit_push1 bit_scatter_w fits16_def
  by (cases "even n") (auto elim!: oddE)

lemma gather_interleave_fst:
  assumes "fits16 a" "fits16 b"
  shows "gather_w (interleave_w a b) = a"
proof (rule bit_word_eqI)
  fix n assume "n < LENGTH(32)"
  show "bit (gather_w (interleave_w a b)) n = bit a n"
    using fits16D [OF assms(1), of n] by (auto simp add: bit_gather_w bit_interleave_w [OF assms])
qed

lemma gather_interleave_snd:
  assumes "fits16 a" "fits16 b"
  shows "gather_w (drop_bit 1 (interleave_w a b)) = b"
proof (rule bit_word_eqI)
  fix n assume "n < LENGTH(32)"
  show "bit (gather_w (drop_bit 1 (interleave_w a b))) n = bit b n"
    using fits16D [OF assms(2), of n] by (auto simp add: bit_gather_w bit_interleave_w [OF assms] bit_drop_bit_eq)
qed

lemma bit_int_high:
  assumes "- (2 ^ k) \<le> (x::int)" "x < 2 ^ k" "k \<le> m"
  shows "bit x m = (x < 0)"
proof -
  have s: "signed_take_bit k x = x"
    using assms(1,2) by (rule signed_take_bit_int_eq_self)
  have "bit x m = bit (signed_take_bit k x) m" by (simp only: s)
  also have "\<dots> = bit x k" using assms(3) by (simp add: bit_signed_take_bit_iff min_def)
  also have "\<dots> = (signed_take_bit k x < 0)" by (simp only: signed_take_bit_negative_iff)
  finally show ?thesis by (simp only: s)
qed

lemma bit_ToInt32_high:
  assumes "- 32768 \<le> x" "x \<le> 32767" "15 \<le> m" "m < 32"
  shows "bit (ToInt32 x) m = (x < 0)"
  using bit_int_high [of 15 x m] assms by (simp add: ToInt32_def bit_word_of_int_iff)

lemma fits16_zigzag:
  assumes "- 32768 \<le> x" "x \<le> 32767"
  shows "fits16 (zigzag_encode_w (ToInt32 x))"
  unfolding fits16_def zigzag_encode_w_def
proof (intro allI impI)
  fix n :: nat assume n: "16 \<le> n"
  show "\<not> bit (push_bit 1 (ToInt32 x) XOR signed_drop_bit 31 (ToInt32 x)) n"
  proof (cases "n < 32")
    case True
    have "bit (push_bit 1 (ToInt32 x) XOR signed_drop_bit 31 (ToInt32 x)) n
            = (bit (ToInt32 x) (n - 1) \<noteq> bit (ToInt32 x) 31)"
      using True n unfolding bit_xor_iff bit_push1 sdb31 by auto
    then show ?thesis
      using True n bit_ToInt32_high [OF assms, of "n - 1"] bit_ToInt32_high [OF assms, of 31]
      by simp
  next
    case False
    then show ?thesis using bit_imp_le_length [of "push_bit 1 (ToInt32 x) XOR signed_drop_bit 31 (ToInt32 x)" n] by auto
  qed
qed

lemma sint_ToInt32: "- 2147483648 \<le> x \<Longrightarrow> x \<le> 2147483647 \<Longrightarrow> sint (ToInt32 x) = x"
  by (simp add: ToInt32_def sint_sbintrunc' signed_take_bit_int_eq_self)

lemma Point_index_eq:
  "ToInt32 (Point_index (Point x y)) =
     interleave_w (zigzag_encode_w (ToInt32 x)) (zigzag_encode_w (ToInt32 y))"
  by (simp only: Point_index_def Let_def interleave_def interleave_w_def ToInt32_js
        ToInt32_scatter ToInt32_zigzag_encode shift_counts Point.sel)

lemma Point_from_index_eq:
  "Point_from_index i =
     Point (sint (zigzag_decode_w (gather_w (ToInt32 i))))
           (sint (zigzag_decode_w (gather_w (drop_bit 1 (ToInt32 i)))))"
  by (simp only: Point_from_index_def deinterleave_def Let_def prod.case zigzag_decode_eq
        ToInt32_gather ToInt32_js shift_counts)

section \<open>Round trip of the codec\<close>

lemma point_roundtrip_in_range:
  assumes "- 32768 \<le> point_x p" "point_x p \<le> 32767"
    and "- 32768 \<le> point_y p" "point_y p \<le> 32767"
  shows "Point_from_index (Point_index p) = p"
proof -
  obtain x y where p: "p = Point x y" by (cases p)
  from assms have r: "- 32768 \<le> x" "x \<le> 32767" "- 32768 \<le> y" "y \<le> 32767"
    by (simp_all add: p)
  have fx: "fits16 (zigzag_encode_w (ToInt32 x))" using r(1,2) by (rule fits16_zigzag)
  have fy: "fits16 (zigzag_encode_w (ToInt32 y))" using r(3,4) by (rule fits16_zigzag)
  have sx: "sint (ToInt32 x) = x" using r(1,2) by (simp add: sint_ToInt32)
  have sy: "sint (ToInt32 y) = y" using r(3,4) by (simp add: sint_ToInt32)
  show ?thesis
    by (simp only: p Point_from_index_eq Point_index_eq gather_interleave_fst [OF fx fy]
          gather_interleave_snd [OF fx fy] zigzag_w_roundtrip sx sy)
qed

text \<open>Distinct points in range have distinct indices.\<close>

lemma Point_index_inj_in_range:
  assumes "- 32768 \<le> point_x p" "point_x p \<le> 32767" "- 32768 \<le> point_y p" "point_y p \<le> 32767"
    and "- 32768 \<le> point_x q" "point_x q \<le> 32767" "- 32768 \<le> point_y q" "point_y q \<le> 32767"
    and "Point_index p = Point_index q"
  shows "p = q"
proof -
  have "p = Point_from_index (Point_index p)"
    using assms(1-4) by (rule point_roundtrip_in_range [symmetric])
  also have "\<dots> = Point_from_index (Point_index q)"
    by (simp only: assms(9))
  also have "\<dots> = q"
    using assms(5-8) by (rule point_roundtrip_in_range)
  finally show ?thesis .
qed

text \<open>
  Claim C1. For every point whose two coordinates lie in \<open>[-32768, 32767]\<close> (the
  zigzag encoding of each fits in 16 bits), decoding the index of the point gives
  the point back: \<open>Point.from_index(p.index())\<close> equals \<open>p\<close>.
\<close>

theorem C1_point_roundtrip:
  assumes "- 32768 \<le> x" "x \<le> 32767" "- 32768 \<le> y" "y \<le> 32767"
  shows "Point_from_index (Point_index (Point x y)) = Point x y"
  using assms point_roundtrip_in_range [of "Point x y"] by simp

theorem C1_point_roundtrip_witness:
  "- 32768 \<le> (- 32768 :: int) \<and> (- 32768 :: int) \<le> 32767
   \<and> - 32768 \<le> (32767 :: int) \<and> (32767 :: int) \<le> 32767
   \<and> Point_from_index (Point_index (Point (- 32768) 32767)) = Point (- 32768) 32767"
  using C1_point_roundtrip [of "- 32768" 32767] by simp

section \<open>Which bits of the coordinates the index depends on\<close>

lemma Point_index_word:
  "Point_index p = sint (interleave_w (zigzag_encode_w (ToInt32 (point_x p))) (zigzag_encode_w (ToInt32 (point_y p))))"
  by (simp only: Point_index_def Let_def interleave_def interleave_w_def js_or_def js_shl_def ToInt32_js
        ToInt32_scatter ToInt32_zigzag_encode shift_counts ToInt32_sint)








section \<open>The address of a point\<close>

lemma sint_eq_0: "sint (X :: 32 word) = 0 \<longleftrightarrow> X = 0"
  by (metis signed_eq_0_iff)

lemma sint_eq_1: "sint (X :: 32 word) = 1 \<longleftrightarrow> X = 1"
  using word_eq_iff_signed by fastforce

lemma sint_small: "uint (w :: 32 word) < 2 ^ 31 \<Longrightarrow> sint w = uint w"
proof -
  assume a: "uint w < 2 ^ 31"
  have "- (2 ^ 31) \<le> (0 :: int)" by simp
  also have "0 \<le> uint w" by simp
  finally have "- (2 ^ 31) \<le> uint w" .
  then have "signed_take_bit 31 (uint w) = uint w"
    using a by (rule signed_take_bit_int_eq_self)
  then show ?thesis by (simp add: sint_uint)
qed

lemma and_15: "(X :: 32 word) AND 15 = take_bit 4 X"
  by (simp add: take_bit_eq_mask mask_eq_exp_minus_1)

lemma uint_and_15: "uint ((X :: 32 word) AND 15) < 16"
  unfolding and_15 using take_bit_int_less_exp [of 4 "uint X"] by (simp add: unsigned_take_bit_eq)

lemma sint_and_15: "sint ((X :: 32 word) AND 15) = uint (X AND 15)"
  using uint_and_15 [of X] by (intro sint_small) simp

lemma js_shl_1_4: "js_shl 1 4 = 16"
  by (simp add: js_shl_def ToInt32_def)

lemma extract_lo_bits_4:
  "extract_lo_bits i 4 = (uint (drop_bit 4 (ToInt32 i)), uint (ToInt32 i AND 15))"
  by (simp add: extract_lo_bits_def js_shl_1_4 js_shr_def js_and_def sint_and_15)

lemma Point_indexes_w:
  "Point_indexes p =
     (let I = ToInt32 (Point_index p)
      in (uint (drop_bit 8 I), uint (drop_bit 4 I AND 15), uint (I AND 15)))"
  by (simp add: Point_indexes_def SLOT_INDEX_BITS_def WORD_INDEX_BITS_def CHUNK_SIZE_BITS_def
        extract_lo_bits_4 Let_def)

lemma Point_indexes_range:
  assumes "Point_indexes p = (ci, wi, si)"
  shows "0 \<le> wi \<and> wi < 16 \<and> 0 \<le> si \<and> si < 16"
  using assms uint_and_15 [of "ToInt32 (Point_index p)"] uint_and_15 [of "drop_bit 4 (ToInt32 (Point_index p))"]
  by (auto simp add: Point_indexes_w Let_def)

lemma bit_and_15: "bit ((X :: 32 word) AND 15) n = (n < 4 \<and> bit X n)"
  unfolding and_15 by (auto simp add: bit_take_bit_iff)

lemma word_from_parts:
  assumes "drop_bit 8 (I :: 32 word) = drop_bit 8 J" "drop_bit 4 I AND 15 = drop_bit 4 J AND 15"
    "I AND 15 = J AND 15"
  shows "I = J"
proof (rule bit_word_eqI)
  fix n :: nat
  consider "n < 4" | "4 \<le> n" "n < 8" | "8 \<le> n" by linarith
  then show "bit I n = bit J n"
  proof cases
    case 1
    have "bit (I AND 15) n = bit (J AND 15) n" by (simp only: assms(3))
    then show ?thesis using 1 by (simp add: bit_and_15)
  next
    case 2
    have "bit (drop_bit 4 I AND 15) (n - 4) = bit (drop_bit 4 J AND 15) (n - 4)"
      by (simp only: assms(2))
    moreover have "n - 4 < 4" "4 + (n - 4) = n" using 2 by simp_all
    ultimately show ?thesis by (simp add: bit_and_15 bit_drop_bit_eq)
  next
    case 3
    have "bit (drop_bit 8 I) (n - 8) = bit (drop_bit 8 J) (n - 8)" by (simp only: assms(1))
    moreover have "8 + (n - 8) = n" using 3 by simp
    ultimately show ?thesis by (simp add: bit_drop_bit_eq)
  qed
qed

lemma Point_index_sint: "sint (ToInt32 (Point_index p)) = Point_index p"
  by (simp add: Point_index_word)

lemma Point_indexes_inj:
  assumes "Point_indexes p = Point_indexes q"
  shows "Point_index p = Point_index q"
proof -
  define I where "I = ToInt32 (Point_index p)"
  define J where "J = ToInt32 (Point_index q)"
  have "(uint (drop_bit 8 I), uint (drop_bit 4 I AND 15), uint (I AND 15))
      = (uint (drop_bit 8 J), uint (drop_bit 4 J AND 15), uint (J AND 15))"
    using assms by (simp only: Point_indexes_w Let_def I_def J_def)
  then have u: "uint (drop_bit 8 I) = uint (drop_bit 8 J)"
    "uint (drop_bit 4 I AND 15) = uint (drop_bit 4 J AND 15)"
    "uint (I AND 15) = uint (J AND 15)"
    by (simp_all only: prod.inject)
  have "drop_bit 8 I = drop_bit 8 J" using u(1) by (rule word_uint_eqI)
  moreover have "drop_bit 4 I AND 15 = drop_bit 4 J AND 15" using u(2) by (rule word_uint_eqI)
  moreover have "I AND 15 = J AND 15" using u(3) by (rule word_uint_eqI)
  ultimately have IJ: "I = J" by (rule word_from_parts)
  have "Point_index p = sint I" by (simp only: I_def Point_index_sint)
  also have "\<dots> = sint J" by (simp only: IJ)
  also have "\<dots> = Point_index q" by (simp only: J_def Point_index_sint)
  finally show ?thesis .
qed

section \<open>The slots of a word\<close>

lemma bit_3_word: "bit (3 :: 32 word) n = (n < 2)"
proof -
  have m: "(3 :: 32 word) = mask 2" by (simp add: mask_eq_exp_minus_1)
  show ?thesis unfolding m bit_mask_iff by auto
qed

lemma bit_slot_w: "bit (slot_w W k) n = (n < 2 \<and> bit W (2 * k + n))"
  unfolding slot_w_def bit_and_iff bit_drop_bit_eq bit_3_word by auto

lemma less2: "n < 2 \<longleftrightarrow> n = 0 \<or> n = Suc 0" by auto

lemma slot_w_eq_0: "slot_w W k = 0 \<longleftrightarrow> \<not> bit W (2 * k) \<and> \<not> bit W (2 * k + 1)"
proof
  assume z: "slot_w W k = 0"
  have "\<not> bit (slot_w W k) 0" "\<not> bit (slot_w W k) 1" unfolding z by simp_all
  then show "\<not> bit W (2 * k) \<and> \<not> bit W (2 * k + 1)" by (simp add: bit_slot_w)
next
  assume h: "\<not> bit W (2 * k) \<and> \<not> bit W (2 * k + 1)"
  show "slot_w W k = 0"
  proof (rule bit_word_eqI)
    fix n
    have "\<not> (n < 2 \<and> bit W (2 * k + n))"
    proof
      assume a: "n < 2 \<and> bit W (2 * k + n)"
      then have "n = 0 \<or> n = 1" by auto
      then show False using a h by auto
    qed
    then show "bit (slot_w W k) n = bit (0 :: 32 word) n" by (simp add: bit_slot_w)
  qed
qed

lemma bit_push_1: "bit (push_bit m (1 :: 32 word)) n = (n = m \<and> m < 32)"
  unfolding bit_push_bit_iff bit_1_iff by auto

lemma bit_push_3: "bit (push_bit m (3 :: 32 word)) n = (n < 32 \<and> m \<le> n \<and> n - m < 2)"
  unfolding bit_push_bit_iff bit_3_word by auto

lemma bit_2_word: "bit (2 :: 32 word) n = (n = 1)"
proof -
  have "(2 :: 32 word) = push_bit 1 1" by simp
  then show ?thesis using bit_push_1 [of 1 n] by simp
qed

lemma slot_w_0 [simp]: "slot_w 0 k = 0"
  by (simp add: slot_w_def)

lemma slot_w_set_same:
  assumes "k < 16" "slot_w W k = 0"
  shows "stone_of_slot (slot_w (W OR push_bit (2 * k + (case st of Black \<Rightarrow> 0 | White \<Rightarrow> 1)) 1) k) = Some st"
proof (cases st)
  case Black
  have "slot_w (W OR push_bit (2 * k + 0) 1) k = 1"
  proof (rule bit_word_eqI)
    fix n
    show "bit (slot_w (W OR push_bit (2 * k + 0) 1) k) n = bit (1 :: 32 word) n"
      using assms unfolding bit_slot_w bit_or_iff bit_push_1 bit_1_iff slot_w_eq_0
      by (auto simp add: less_2_cases_iff)
  qed
  then show ?thesis using Black by (simp add: stone_of_slot_def)
next
  case White
  have "slot_w (W OR push_bit (2 * k + 1) 1) k = 2"
  proof (rule bit_word_eqI)
    fix n
    show "bit (slot_w (W OR push_bit (2 * k + 1) 1) k) n = bit (2 :: 32 word) n"
      using assms unfolding bit_slot_w bit_or_iff bit_push_1 bit_2_word slot_w_eq_0
      by (auto simp add: less_2_cases_iff)
  qed
  then show ?thesis using White by (simp add: stone_of_slot_def)
qed

lemma slot_w_set_other:
  assumes "k \<noteq> k'" "v < 2"
  shows "slot_w (W OR push_bit (2 * k + v) 1) k' = slot_w W k'"
proof (rule bit_word_eqI)
  fix n
  have "2 * k' + n \<noteq> 2 * k + v" if "n < 2" using that assms by presburger
  then show "bit (slot_w (W OR push_bit (2 * k + v) 1) k') n = bit (slot_w W k') n"
    unfolding bit_slot_w bit_or_iff bit_push_1 by auto
qed

lemma slot_w_unset_same: "slot_w (W AND NOT (push_bit (2 * k) 3)) k = 0"
proof (rule bit_word_eqI)
  fix n assume "n < LENGTH(32)"
  have "2 * k + n < 32" if "bit W (2 * k + n)" using bit_imp_le_length [OF that] by simp
  then show "bit (slot_w (W AND NOT (push_bit (2 * k) 3)) k) n = bit (0 :: 32 word) n"
    unfolding bit_slot_w bit_and_iff bit_not_iff bit_push_3 by auto
qed

lemma slot_w_unset_other:
  assumes "k \<noteq> k'"
  shows "slot_w (W AND NOT (push_bit (2 * k) 3)) k' = slot_w W k'"
proof (rule bit_word_eqI)
  fix n
  have "\<not> (2 * k \<le> 2 * k' + n \<and> 2 * k' + n - 2 * k < 2)" if "n < 2" using that assms by presburger
  then show "bit (slot_w (W AND NOT (push_bit (2 * k) 3)) k') n = bit (slot_w W k') n"
    unfolding bit_slot_w bit_and_iff bit_not_iff bit_push_3 by (auto dest: bit_imp_le_length)
qed

lemma unset_empty_slot:
  assumes "slot_w W k = 0"
  shows "W AND NOT (push_bit (2 * k) 3) = W"
proof (rule bit_word_eqI)
  fix n assume "n < LENGTH(32)"
  have "\<not> bit W n" if "2 * k \<le> n" "n - 2 * k < 2"
  proof -
    from that have "n = 2 * k \<or> n = 2 * k + 1" by auto
    then show ?thesis using assms by (auto simp add: slot_w_eq_0)
  qed
  then show "bit (W AND NOT (push_bit (2 * k) 3)) n = bit W n"
    unfolding bit_and_iff bit_not_iff bit_push_3 by (auto dest: bit_imp_le_length)
qed

lemma stone_shift_less: "(case st of Black \<Rightarrow> 0 | White \<Rightarrow> 1) < (2 :: nat)"
  by (cases st) simp_all

lemma stone_of_slot_0 [simp]: "stone_of_slot 0 = None"
  by (simp add: stone_of_slot_def)

lemma stone_of_slot_None: "stone_of_slot v = None \<longleftrightarrow> v = 0"
  by (simp add: stone_of_slot_def)

lemma stone_of_slot_Some: "(\<exists>y. stone_of_slot v = Some y) \<longleftrightarrow> v \<noteq> 0"
  by (simp add: stone_of_slot_def)

section \<open>Chunks and the grid, on words\<close>

lemma WORDS_PER_CHUNK_16: "WORDS_PER_CHUNK = 16"
  by (simp add: WORDS_PER_CHUNK_def CHUNK_SIZE_def CHUNK_SIZE_BITS_def js_shl_1_4)

lemma ToInt32_words_read: "ToInt32 (words_read c i) = word_of c i"
  by (simp add: words_read_def word_of_def)

lemma words_write_store: "words_write c i v = store c i (ToInt32 v)"
  by (simp add: words_write_def store_def ToInt32_def)

lemma shift_slot: "0 \<le> s \<Longrightarrow> s < 16 \<Longrightarrow> nat ((s * 2) mod 32) = 2 * nat s"
  by (simp add: nat_mult_distrib)

lemma shift_slot_stone:
  "0 \<le> s \<Longrightarrow> s < 16 \<Longrightarrow> nat ((s * 2 + Stone_num st) mod 32) = 2 * nat s + (case st of Black \<Rightarrow> 0 | White \<Rightarrow> 1)"
  by (cases st) (simp_all add: Stone_num_def nat_mult_distrib nat_add_distrib)

lemma slot_value:
  assumes "0 \<le> s" "s < 16"
  shows "js_and (js_shr word (s * 2)) 3 = sint (slot_w (ToInt32 word) (nat s))"
  by (simp only: js_and_def ToInt32_js shift_slot [OF assms] slot_w_def ToInt32_numeral)

lemma Chunk_get_w:
  assumes "0 \<le> s" "s < 16"
  shows "Chunk_get c w s = stone_of_slot (slot_w (word_of c w) (nat s))"
  by (simp add: Chunk_get_def slot_value [OF assms] ToInt32_words_read stone_of_slot_def
        sint_eq_0 sint_eq_1 Let_def)

lemma Chunk_set_w:
  assumes "0 \<le> s" "s < 16"
  shows "Chunk_set c w s st =
     (if slot_w (word_of c w) (nat s) \<noteq> 0 then (False, c)
      else (True, store c w (word_of c w OR push_bit (2 * nat s + (case st of Black \<Rightarrow> 0 | White \<Rightarrow> 1)) 1)))"
  by (simp only: Chunk_set_def slot_value [OF assms] ToInt32_words_read sint_eq_0 Let_def
       words_write_store ToInt32_js shift_slot_stone [OF assms] ToInt32_1)

lemma Chunk_unset_w:
  assumes "0 \<le> s" "s < 16"
  shows "Chunk_unset c w s =
     (stone_of_slot (slot_w (word_of c w) (nat s)),
      store c w (word_of c w AND NOT (push_bit (2 * nat s) 3)))"
  apply (simp only: Chunk_unset_def slot_value [OF assms] ToInt32_words_read Let_def
       words_write_store ToInt32_js shift_slot [OF assms] ToInt32_numeral)
  apply (simp add: stone_of_slot_def sint_eq_0 sint_eq_1)
  done
   

lemma in_chunk_indexes: "in_chunk (Point_indexes p)"
  using Point_indexes_range [of p] by (cases "Point_indexes p") (simp add: in_chunk_def)

lemma word_of_store:
  "word_of (store c w X) w' =
     (if w' = w \<and> 0 \<le> w \<and> w < int (length (words c)) then X else word_of c w')"
  by (auto simp add: word_of_def store_def nat_eq_iff)

lemma length_store [simp]: "length (words (store c w X)) = length (words c)"
  by (simp add: store_def)

lemma store_same: "store c w (word_of c w) = c"
  by (simp add: store_def word_of_def)

lemma word_of_new [simp]: "word_of Chunk_new w = 0"
proof (cases "0 \<le> w \<and> w < 16")
  case True
  then have "nat w < 16" by arith
  then show ?thesis by (simp add: word_of_def Chunk_new_def WORDS_PER_CHUNK_16)
next
  case False
  then show ?thesis by (auto simp add: word_of_def Chunk_new_def WORDS_PER_CHUNK_16)
qed

lemma length_new [simp]: "length (words Chunk_new) = 16"
  by (simp add: Chunk_new_def WORDS_PER_CHUNK_16)

lemma RawBoard_get_cell: "RawBoard_get g p = cell g (Point_indexes p)"
  using Point_indexes_range [of p]
  by (cases "Point_indexes p")
     (simp add: RawBoard_get_def RawBoard_chunk_def cell_def Chunk_get_w split: option.splits)

text \<open>What \<open>RawBoard_set\<close> does, on the words.\<close>

lemma RawBoard_set_w:
  assumes "Point_indexes p = (ci, wi, si)"
  shows "RawBoard_set g p st =
     (let c0 = (case chunks g ci of None \<Rightarrow> Chunk_new | Some c \<Rightarrow> c)
      in if slot_w (word_of c0 wi) (nat si) \<noteq> 0 then (False, g)
         else (True, g\<lparr>chunks := (chunks g)(ci \<mapsto>
                 store c0 wi (word_of c0 wi OR push_bit (2 * nat si + (case st of Black \<Rightarrow> 0 | White \<Rightarrow> 1)) 1))\<rparr>))"
proof -
  from Point_indexes_range [OF assms] have r: "0 \<le> si" "si < 16" by simp_all
  show ?thesis
  proof (cases "chunks g ci")
    case None
    then show ?thesis
      by (simp add: RawBoard_set_def assms RawBoard_chunk_or_default_def Chunk_set_w [OF r] Let_def)
  next
    case (Some c)
    then have "g\<lparr>chunks := (chunks g)(ci \<mapsto> c)\<rparr> = g" by (simp add: map_upd_triv)
    with Some show ?thesis
      by (simp add: RawBoard_set_def assms RawBoard_chunk_or_default_def Chunk_set_w [OF r] Let_def)
  qed
qed

lemma RawBoard_unset_w:
  assumes "Point_indexes p = (ci, wi, si)"
  shows "RawBoard_unset g p =
     (case chunks g ci of
        None \<Rightarrow> (None, g)
      | Some c \<Rightarrow> (stone_of_slot (slot_w (word_of c wi) (nat si)),
                   g\<lparr>chunks := (chunks g)(ci \<mapsto> store c wi (word_of c wi AND NOT (push_bit (2 * nat si) 3)))\<rparr>))"
proof -
  from Point_indexes_range [OF assms] have r: "0 \<le> si" "si < 16" by simp_all
  show ?thesis
    by (simp add: RawBoard_unset_def assms RawBoard_chunk_def Chunk_unset_w [OF r] split: option.splits)
qed

lemma RawBoard_wf_new: "RawBoard_wf RawBoard_new"
  by (simp add: RawBoard_wf_def RawBoard_new_def)

lemma RawBoard_wf_set: "RawBoard_wf g \<Longrightarrow> RawBoard_wf (snd (RawBoard_set g p st))"
  by (cases "Point_indexes p")
     (auto simp add: RawBoard_set_w RawBoard_wf_def Let_def WORDS_PER_CHUNK_16 split: option.splits)

lemma RawBoard_wf_unset: "RawBoard_wf g \<Longrightarrow> RawBoard_wf (snd (RawBoard_unset g p))"
  by (cases "Point_indexes p")
     (auto simp add: RawBoard_unset_w RawBoard_wf_def Let_def WORDS_PER_CHUNK_16 split: option.splits)

lemma fst_RawBoard_set: "fst (RawBoard_set g p st) = (RawBoard_get g p = None)"
  by (cases "Point_indexes p")
     (simp add: RawBoard_set_w RawBoard_get_cell cell_def Let_def stone_of_slot_None
        stone_of_slot_Some split: option.splits)

lemma fst_RawBoard_unset: "fst (RawBoard_unset g p) = RawBoard_get g p"
  by (cases "Point_indexes p")
     (auto simp add: RawBoard_unset_w RawBoard_get_cell cell_def split: option.splits)

lemma RawBoard_set_occupied:
  assumes "RawBoard_get g p \<noteq> None"
  shows "RawBoard_set g p st = (False, g)"
  using assms
  by (cases "Point_indexes p")
     (auto simp add: RawBoard_set_w RawBoard_get_cell cell_def Let_def stone_of_slot_None split: option.splits)

lemma RawBoard_unset_empty:
  assumes "RawBoard_get g p = None"
  shows "RawBoard_unset g p = (None, g)"
  using assms
  by (cases "Point_indexes p")
     (auto simp add: RawBoard_unset_w RawBoard_get_cell cell_def stone_of_slot_None
        unset_empty_slot store_same map_upd_triv split: option.splits)

lemma cell_set:
  assumes wf: "RawBoard_wf g" and p: "Point_indexes p = t" and t': "in_chunk t'"
  shows "cell (snd (RawBoard_set g p st)) t' =
           (if t' = t \<and> cell g t = None then Some st else cell g t')"
proof -
  obtain ci wi si where t: "t = (ci, wi, si)" by (cases t)
  obtain cj wj sj where tt: "t' = (cj, wj, sj)" by (cases t')
  from Point_indexes_range [of p ci wi si] p t
  have r: "0 \<le> wi" "wi < 16" "0 \<le> si" "si < 16" by simp_all
  from t' tt have r': "0 \<le> wj" "wj < 16" "0 \<le> sj" "sj < 16" by (simp_all add: in_chunk_def)
  define c0 where "c0 = (case chunks g ci of None \<Rightarrow> Chunk_new | Some c \<Rightarrow> c)"
  define X where "X = word_of c0 wi OR push_bit (2 * nat si + (case st of Black \<Rightarrow> 0 | White \<Rightarrow> 1)) 1"
  have len: "length (words c0) = 16"
    using wf by (auto simp add: c0_def RawBoard_wf_def WORDS_PER_CHUNK_16 split: option.splits)
  have ct: "cell g (ci, w, s) = stone_of_slot (slot_w (word_of c0 w) (nat s))" for w s
    by (simp add: cell_def c0_def split: option.splits)
  have set: "RawBoard_set g p st =
      (if slot_w (word_of c0 wi) (nat si) \<noteq> 0 then (False, g)
       else (True, g\<lparr>chunks := (chunks g)(ci \<mapsto> store c0 wi X)\<rparr>))"
    using p t by (simp add: RawBoard_set_w [of p ci wi si] c0_def X_def Let_def)
  show ?thesis
  proof (cases "slot_w (word_of c0 wi) (nat si) = 0")
    case False
    then show ?thesis by (simp add: set ct t stone_of_slot_None)
  next
    case True
    have same: "stone_of_slot (slot_w X (nat si)) = Some st"
      unfolding X_def using r True by (intro slot_w_set_same) simp_all
    have other: "slot_w X (nat sj) = slot_w (word_of c0 wi) (nat sj)" if "sj \<noteq> si"
      unfolding X_def using that r r' by (intro slot_w_set_other stone_shift_less) simp
    have w: "word_of (store c0 wi X) wj = (if wj = wi then X else word_of c0 wj)"
      using r len by (simp add: word_of_store)
    show ?thesis
    proof (cases "cj = ci")
      case False
      then show ?thesis by (simp add: set True cell_def t tt)
    next
      case cj: True
      have "cell (snd (RawBoard_set g p st)) t' = stone_of_slot (slot_w (word_of (store c0 wi X) wj) (nat sj))"
        by (simp add: set True cell_def tt cj)
      then show ?thesis
        using same other by (auto simp add: w ct t tt cj True)
    qed
  qed
qed

lemma cell_unset:
  assumes wf: "RawBoard_wf g" and p: "Point_indexes p = t" and t': "in_chunk t'"
  shows "cell (snd (RawBoard_unset g p)) t' = (if t' = t then None else cell g t')"
proof -
  obtain ci wi si where t: "t = (ci, wi, si)" by (cases t)
  obtain cj wj sj where tt: "t' = (cj, wj, sj)" by (cases t')
  from Point_indexes_range [of p ci wi si] p t
  have r: "0 \<le> wi" "wi < 16" "0 \<le> si" "si < 16" by simp_all
  from t' tt have r': "0 \<le> wj" "wj < 16" "0 \<le> sj" "sj < 16" by (simp_all add: in_chunk_def)
  show ?thesis
  proof (cases "chunks g ci")
    case None
    then show ?thesis using p t by (auto simp add: RawBoard_unset_w [of p ci wi si] cell_def tt)
  next
    case (Some c)
    define X where "X = word_of c wi AND NOT (push_bit (2 * nat si) 3)"
    have len: "length (words c) = 16"
      using wf Some by (auto simp add: RawBoard_wf_def WORDS_PER_CHUNK_16)
    have unset: "snd (RawBoard_unset g p) = g\<lparr>chunks := (chunks g)(ci \<mapsto> store c wi X)\<rparr>"
      using p t Some by (simp add: RawBoard_unset_w [of p ci wi si] X_def)
    have same: "slot_w X (nat si) = 0" unfolding X_def by (rule slot_w_unset_same)
    have other: "slot_w X (nat sj) = slot_w (word_of c wi) (nat sj)" if "sj \<noteq> si"
      unfolding X_def using that r r' by (intro slot_w_unset_other) simp
    have w: "word_of (store c wi X) wj = (if wj = wi then X else word_of c wj)"
      using r len by (simp add: word_of_store)
    show ?thesis
    proof (cases "cj = ci")
      case False
      then show ?thesis by (simp add: unset cell_def t tt)
    next
      case cj: True
      have "cell (snd (RawBoard_unset g p)) t' = stone_of_slot (slot_w (word_of (store c wi X) wj) (nat sj))"
        by (simp add: unset cell_def tt cj)
      then show ?thesis
        using same other by (auto simp add: w cell_def t tt cj Some)
    qed
  qed
qed

lemma RawBoard_get_set:
  assumes "RawBoard_wf g"
  shows "RawBoard_get (snd (RawBoard_set g p st)) q =
     (if Point_indexes q = Point_indexes p \<and> RawBoard_get g p = None then Some st
      else RawBoard_get g q)"
  by (simp add: RawBoard_get_cell cell_set [OF assms refl in_chunk_indexes])

lemma RawBoard_get_unset:
  assumes "RawBoard_wf g"
  shows "RawBoard_get (snd (RawBoard_unset g p)) q =
     (if Point_indexes q = Point_indexes p then None else RawBoard_get g q)"
  by (simp add: RawBoard_get_cell cell_unset [OF assms refl in_chunk_indexes])

lemma RawBoard_get_same_indexes:
  "Point_indexes q = Point_indexes p \<Longrightarrow> RawBoard_get g q = RawBoard_get g p"
  by (simp add: RawBoard_get_cell)

lemma RawBoard_get_new: "RawBoard_get RawBoard_new p = None"
  by (simp add: RawBoard_get_cell cell_def RawBoard_new_def split: prod.splits)

section \<open>Coherence of the grid operations\<close>

text \<open>
  Claim C7. For every point \<open>p\<close> and stones \<open>a\<close>, \<open>b\<close>: if \<open>grid.set(p, a)\<close> succeeds
  then \<open>grid.get(p)\<close> returns \<open>a\<close>; a following \<open>grid.set(p, b)\<close> returns false,
  leaves the grid as it is, and \<open>grid.get(p)\<close> still returns \<open>a\<close>. The grid is any
  grid whose chunks have the \<open>WORDS_PER_CHUNK\<close> words the constructor gives them.
\<close>

theorem C7_set_get_coherence:
  assumes "RawBoard_wf g" "RawBoard_set g p a = (True, g1)"
  shows "RawBoard_get g1 p = Some a
     \<and> RawBoard_set g1 p b = (False, g1)
     \<and> RawBoard_get (snd (RawBoard_set g1 p b)) p = Some a"
proof -
  have "fst (RawBoard_set g p a)" "g1 = snd (RawBoard_set g p a)" by (simp_all add: assms(2))
  then have 1: "RawBoard_get g1 p = Some a"
    by (simp add: fst_RawBoard_set RawBoard_get_set [OF assms(1)])
  then have "RawBoard_set g1 p b = (False, g1)" by (intro RawBoard_set_occupied) simp
  with 1 show ?thesis by simp
qed

theorem C7_set_get_coherence_witness:
  "RawBoard_get (snd (RawBoard_set RawBoard_new (Point 3 (- 4)) White)) (Point 3 (- 4)) = Some White
   \<and> fst (RawBoard_set (snd (RawBoard_set RawBoard_new (Point 3 (- 4)) White)) (Point 3 (- 4)) Black)
       = False"
proof -
  have "fst (RawBoard_set RawBoard_new (Point 3 (- 4)) White) = True" by code_simp
  then have s: "RawBoard_set RawBoard_new (Point 3 (- 4)) White
       = (True, snd (RawBoard_set RawBoard_new (Point 3 (- 4)) White))"
    by (cases "RawBoard_set RawBoard_new (Point 3 (- 4)) White") simp
  from C7_set_get_coherence [OF RawBoard_wf_new s, of Black] show ?thesis by simp
qed

lemma never_set_index_foldl:
  assumes "RawBoard_wf g" "RawBoard_get g p = None" "never_set_index p ops"
  shows "RawBoard_wf (foldl grid_apply g ops) \<and> RawBoard_get (foldl grid_apply g ops) p = None"
  using assms
proof (induction ops arbitrary: g)
  case Nil
  then show ?case by simp
next
  case (Cons x xs)
  have "RawBoard_wf (grid_apply g x) \<and> RawBoard_get (grid_apply g x) p = None"
  proof (cases x)
    case (Grid_set q s)
    with Cons.prems(3) have "Point_indexes p \<noteq> Point_indexes q"
      using Point_indexes_inj [of p q] by auto
    then show ?thesis
      using Cons.prems(1,2) Grid_set by (simp add: RawBoard_wf_set RawBoard_get_set)
  next
    case (Grid_unset q)
    then show ?thesis
      using Cons.prems(1,2) by (simp add: RawBoard_wf_unset RawBoard_get_unset)
  qed
  then show ?case using Cons.IH [of "grid_apply g x"] Cons.prems(3) by simp
qed

text \<open>
  Claim C8 says that \<open>grid.unset(p)\<close> on a point that was never set returns empty
  and changes nothing, for every point. The point (8388608, 0) has the index of
  (0, 0): after \<open>set\<close> of (0, 0) alone, \<open>unset\<close> of (8388608, 0), which was never
  set, returns Black and empties (0, 0).
\<close>

theorem C8_unset_never_set_counterexample:
  "never_set (Point 8388608 0) [Grid_set (Point 0 0) Black]
   \<and> RawBoard_unset (grid_run [Grid_set (Point 0 0) Black]) (Point 8388608 0)
       \<noteq> (None, grid_run [Grid_set (Point 0 0) Black])
   \<and> fst (RawBoard_unset (grid_run [Grid_set (Point 0 0) Black]) (Point 8388608 0)) = Some Black
   \<and> RawBoard_get (grid_run [Grid_set (Point 0 0) Black]) (Point 0 0) = Some Black
   \<and> RawBoard_get (snd (RawBoard_unset (grid_run [Grid_set (Point 0 0) Black]) (Point 8388608 0)))
        (Point 0 0) = None"
proof -
  have e: "never_set (Point 8388608 0) [Grid_set (Point 0 0) Black]
   \<and> fst (RawBoard_unset (grid_run [Grid_set (Point 0 0) Black]) (Point 8388608 0)) = Some Black
   \<and> RawBoard_get (grid_run [Grid_set (Point 0 0) Black]) (Point 0 0) = Some Black
   \<and> RawBoard_get (snd (RawBoard_unset (grid_run [Grid_set (Point 0 0) Black]) (Point 8388608 0)))
        (Point 0 0) = None"
    by code_simp
  then have "fst (RawBoard_unset (grid_run [Grid_set (Point 0 0) Black]) (Point 8388608 0)) \<noteq> None"
    by (simp only: option.distinct not_False_eq_True)
  then have "RawBoard_unset (grid_run [Grid_set (Point 0 0) Black]) (Point 8388608 0)
       \<noteq> (None, grid_run [Grid_set (Point 0 0) Black])"
    by (metis fst_conv)
  with e show ?thesis by (simp only: simp_thms)
qed

text \<open>
  Claim C8, amended. For every point \<open>p\<close>: \<open>grid.unset(p)\<close> after a successful
  \<open>grid.set(p, m)\<close> returns \<open>m\<close> and \<open>grid.get(p)\<close> is then empty; and on a grid on
  which no point with the index of \<open>p\<close> was ever set (\<open>never_set_index\<close>, also when
  the chunk of \<open>p\<close> was never created), \<open>grid.unset(p)\<close> returns empty and leaves
  the grid as it is.
\<close>

theorem C8_unset_coherence:
  "(RawBoard_wf g \<and> fst (RawBoard_set g p m) \<longrightarrow>
      fst (RawBoard_unset (snd (RawBoard_set g p m)) p) = Some m
      \<and> RawBoard_get (snd (RawBoard_unset (snd (RawBoard_set g p m)) p)) p = None)
   \<and> (never_set_index p ops \<longrightarrow> RawBoard_unset (grid_run ops) p = (None, grid_run ops))"
proof (intro conjI impI)
  assume a: "RawBoard_wf g \<and> fst (RawBoard_set g p m)"
  then have wf1: "RawBoard_wf (snd (RawBoard_set g p m))" by (simp add: RawBoard_wf_set)
  from a show "fst (RawBoard_unset (snd (RawBoard_set g p m)) p) = Some m"
    by (simp add: fst_RawBoard_unset RawBoard_get_set fst_RawBoard_set)
  show "RawBoard_get (snd (RawBoard_unset (snd (RawBoard_set g p m)) p)) p = None"
    by (simp add: RawBoard_get_unset [OF wf1])
next
  assume "never_set_index p ops"
  then have "RawBoard_get (grid_run ops) p = None"
    using never_set_index_foldl [OF RawBoard_wf_new RawBoard_get_new, of p ops]
    by (simp add: grid_run_def)
  then show "RawBoard_unset (grid_run ops) p = (None, grid_run ops)"
    by (rule RawBoard_unset_empty)
qed

theorem C8_unset_coherence_witness:
  "fst (RawBoard_unset (snd (RawBoard_set RawBoard_new (Point 1 2) White)) (Point 1 2)) = Some White
   \<and> RawBoard_get (snd (RawBoard_unset (snd (RawBoard_set RawBoard_new (Point 1 2) White)) (Point 1 2)))
        (Point 1 2) = None
   \<and> RawBoard_unset (grid_run [Grid_set (Point 0 0) Black, Grid_unset (Point 0 0), Grid_set (Point 1 1) White])
        (Point 1 2)
       = (None, grid_run [Grid_set (Point 0 0) Black, Grid_unset (Point 0 0), Grid_set (Point 1 1) White])"
proof -
  have 1: "fst (RawBoard_set RawBoard_new (Point 1 2) White)" by code_simp
  have 2: "never_set_index (Point 1 2)
             [Grid_set (Point 0 0) Black, Grid_unset (Point 0 0), Grid_set (Point 1 1) White]"
    by code_simp
  from C8_unset_coherence [of RawBoard_new "Point 1 2" White
      "[Grid_set (Point 0 0) Black, Grid_unset (Point 0 0), Grid_set (Point 1 1) White]"]
    RawBoard_wf_new 1 2
  show ?thesis by simp
qed

section \<open>Single operations of the board\<close>

lemma splice_take: "0 \<le> i \<Longrightarrow> i \<le> int (length xs) \<Longrightarrow> splice xs i = take (nat i) xs"
  by (simp add: splice_def Let_def min_def)

lemma slice0_take: "0 \<le> i \<Longrightarrow> i \<le> int (length xs) \<Longrightarrow> slice0 xs i = take (nat i) xs"
  by (simp add: slice0_def Let_def min_def)

lemma Board_set_eq:
  "Board_set b p s =
     (if RawBoard_get (Board_board b) p \<noteq> None then (False, b)
      else (True,
            b\<lparr>Board_board := snd (RawBoard_set (Board_board b) p s),
              Board_record := splice (Board_record b) (Board_index b) @ [(p, s)],
              Board_index := Board_index b + 1\<rparr>))"
proof (cases "RawBoard_get (Board_board b) p = None")
  case True
  then have "fst (RawBoard_set (Board_board b) p s)" by (simp add: fst_RawBoard_set)
  then show ?thesis using True
    by (cases "RawBoard_set (Board_board b) p s") (simp add: Board_set_def)
next
  case False
  then show ?thesis by (simp add: Board_set_def RawBoard_set_occupied)
qed

lemma Board_unset_eq:
  assumes "0 < Board_index b" "Board_index b \<le> int (length (Board_record b))"
  shows "Board_unset b =
     Inr (Some (Board_record b ! nat (Board_index b - 1)),
          b\<lparr>Board_index := Board_index b - 1,
            Board_board := snd (RawBoard_unset (Board_board b)
                                 (fst (Board_record b ! nat (Board_index b - 1))))\<rparr>)"
  using assms by (simp add: Board_unset_def array_at_def Let_def)

lemma Board_reset_eq:
  assumes "0 \<le> Board_index b" "Board_index b < int (length (Board_record b))"
  shows "Board_reset b =
     Inr (Some (Board_record b ! nat (Board_index b)),
          b\<lparr>Board_index := Board_index b + 1,
            Board_board := snd (RawBoard_set (Board_board b)
                                 (fst (Board_record b ! nat (Board_index b)))
                                 (snd (Board_record b ! nat (Board_index b))))\<rparr>)"
  using assms by (simp add: Board_reset_def array_at_def Let_def)

lemma Board_unset_zero: "Board_index b = 0 \<Longrightarrow> Board_unset b = Inr (None, b)"
  by (simp add: Board_unset_def)

lemma Board_reset_end:
  "int (length (Board_record b)) \<le> Board_index b \<Longrightarrow> Board_reset b = Inr (None, b)"
  by (simp add: Board_reset_def)

section \<open>Committing a move\<close>

text \<open>
  Claim C5. When \<open>Board.set\<close> succeeds it discards the record entries from the
  cursor on, appends the new (point, stone) entry and advances the cursor by 1.
  The witness is the scenario of the specification: three moves, one undo, then a
  fourth move, after which the record is the first two moves and the fourth, with
  cursor 3.
\<close>

theorem C5_commit_truncates_and_appends:
  assumes "0 \<le> Board_index b" "Board_index b \<le> int (length (Board_record b))"
    "Board_set b p s = (True, b')"
  shows "Board_record b' = take (nat (Board_index b)) (Board_record b) @ [(p, s)]
     \<and> Board_index b' = Board_index b + 1"
  using assms by (auto simp add: Board_set_eq splice_take split: if_splits)

theorem C5_commit_truncates_and_appends_witness:
  "\<exists>b b'. run_ops Board_new
          [Op_set (Point 0 0) Black, Op_set (Point 1 1) White, Op_set (Point (- 2) 5) White,
           Op_unset] = Inr b
      \<and> Board_index b = 2
      \<and> Board_set b (Point 7 7) Black = (True, b')
      \<and> Board_record b' = [(Point 0 0, Black), (Point 1 1, White), (Point 7 7, Black)]
      \<and> Board_index b' = 3"
proof -
  let ?ops = "[Op_set (Point 0 0) Black, Op_set (Point 1 1) White, Op_set (Point (- 2) 5) White,
           Op_unset]"
  have "isl (run_ops Board_new ?ops) = False" by code_simp
  then obtain b where b: "run_ops Board_new ?ops = Inr b" by (cases "run_ops Board_new ?ops") simp_all
  have "Board_index (projr (run_ops Board_new ?ops)) = 2"
    "Board_record (projr (run_ops Board_new ?ops))
       = [(Point 0 0, Black), (Point 1 1, White), (Point (- 2) 5, White)]"
    "fst (Board_set (projr (run_ops Board_new ?ops)) (Point 7 7) Black) = True" by code_simp+
  then have i: "Board_index b = 2"
    and r: "Board_record b = [(Point 0 0, Black), (Point 1 1, White), (Point (- 2) 5, White)]"
    and f: "fst (Board_set b (Point 7 7) Black) = True" by (simp_all only: b sum.sel)
  obtain b' where s: "Board_set b (Point 7 7) Black = (True, b')"
    using f by (cases "Board_set b (Point 7 7) Black") simp
  have "0 \<le> Board_index b" "Board_index b \<le> int (length (Board_record b))" by (simp_all add: i r)
  from C5_commit_truncates_and_appends [OF this s] b i s show ?thesis by (simp add: r)
qed

text \<open>
  Claim C6. \<open>Board.set\<close> on a point that is already occupied returns false and the
  board is unchanged: grid, record and cursor are as before the call.
\<close>

theorem C6_commit_on_occupied_point:
  assumes "Board_get b p \<noteq> None"
  shows "Board_set b p s = (False, b)"
  using assms by (simp add: Board_set_eq Board_get_def)

theorem C6_commit_on_occupied_point_witness:
  "Board_get (snd (Board_set Board_new (Point 0 0) Black)) (Point 0 0) \<noteq> None
   \<and> Board_set (snd (Board_set Board_new (Point 0 0) Black)) (Point 0 0) White
       = (False, snd (Board_set Board_new (Point 0 0) Black))"
proof -
  have h: "Board_get (snd (Board_set Board_new (Point 0 0) Black)) (Point 0 0) \<noteq> None" by code_simp
  from C6_commit_on_occupied_point [OF h] h show ?thesis by simp
qed

section \<open>Turn inference\<close>

lemma xor_stone: "Stone_of_num (js_xor (Stone_num s) 1) = (case s of Black \<Rightarrow> White | White \<Rightarrow> Black)"
  by (cases s) (simp_all add: Stone_of_num_def Stone_num_def js_xor_def ToInt32_def)

text \<open>
  Claim C4. \<open>infer_turn\<close> returns (Black, true) when the cursor is 0; (White, fresh)
  when the cursor is 1, where fresh holds iff the stone of the single move played
  is White; and for a cursor of at least 2, with the stones of the entries at
  cursor - 1 and cursor - 2: (the opposite of the last, false) if the two are
  equal, and (the last, true) if they differ. Black is marker A and White is
  marker B.
\<close>

theorem C4_infer_turn:
  assumes "0 \<le> Board_index b" "Board_index b \<le> int (length (Board_record b))"
  shows "(Board_index b = 0 \<longrightarrow> infer_turn b = Inr (Black, True))
     \<and> (Board_index b = 1 \<longrightarrow> infer_turn b = Inr (White, snd (Board_record b ! 0) = White))
     \<and> (2 \<le> Board_index b \<longrightarrow>
          (let last_stone = snd (Board_record b ! nat (Board_index b - 1));
               prev_stone = snd (Board_record b ! nat (Board_index b - 2))
           in infer_turn b =
                Inr (if last_stone = prev_stone
                     then (case last_stone of Black \<Rightarrow> White | White \<Rightarrow> Black, False)
                     else (last_stone, True))))"
  using assms by (auto simp add: infer_turn_def array_at_def Let_def xor_stone)

theorem C4_infer_turn_witness:
  "infer_turn Board_new = Inr (Black, True)
   \<and> infer_turn (snd (Board_set Board_new (Point 0 0) White)) = Inr (White, True)
   \<and> infer_turn (snd (Board_set (snd (Board_set Board_new (Point 0 0) Black)) (Point 1 0) Black))
       = Inr (White, False)"
proof -
  let ?b1 = "snd (Board_set Board_new (Point 0 0) White)"
  let ?b2 = "snd (Board_set (snd (Board_set Board_new (Point 0 0) Black)) (Point 1 0) Black)"
  have 0: "Board_index Board_new = 0" "Board_record Board_new = []" by code_simp+
  have 1: "Board_index ?b1 = 1" "Board_record ?b1 = [(Point 0 0, White)]" by code_simp+
  have 2: "Board_index ?b2 = 2" "Board_record ?b2 = [(Point 0 0, Black), (Point 1 0, Black)]"
    by code_simp+
  show ?thesis
    using C4_infer_turn [of Board_new] C4_infer_turn [of ?b1] C4_infer_turn [of ?b2]
    by (simp add: 0 1 2)
qed

section \<open>Jump against single steps\<close>

lemma jump_set_done: "\<not> i < index \<Longrightarrow> jump_set g rec i index = Inr g"
  by (subst jump_set.simps) simp

lemma jump_set_step:
  "i < index \<Longrightarrow> 0 \<le> i \<Longrightarrow> i < int (length rec) \<Longrightarrow>
   jump_set g rec i index =
     jump_set (snd (RawBoard_set g (fst (rec ! nat i)) (snd (rec ! nat i)))) rec (i + 1) index"
  by (subst jump_set.simps) (simp add: array_at_def)

lemma jump_unset_done: "\<not> index \<le> i \<Longrightarrow> jump_unset g rec i index = Inr g"
  by (subst jump_unset.simps) simp

lemma jump_unset_step:
  "index \<le> i \<Longrightarrow> 0 \<le> i \<Longrightarrow> i < int (length rec) \<Longrightarrow>
   jump_unset g rec i index =
     jump_unset (snd (RawBoard_unset g (fst (rec ! nat i)))) rec (i - 1) index"
  by (subst jump_unset.simps) (simp add: array_at_def)

lemma jump_unset_throw:
  "index \<le> i \<Longrightarrow> i < 0 \<Longrightarrow> jump_unset g rec i index = Inl TypeError"
  by (subst jump_unset.simps) (simp add: array_at_def)

lemma redo_times_jump_set:
  assumes "n = nat (T - Board_index b)" "0 \<le> Board_index b" "Board_index b \<le> T"
    "T \<le> int (length (Board_record b))"
  shows "redo_times n b =
     (case jump_set (Board_board b) (Board_record b) (Board_index b) T of
        Inl e \<Rightarrow> Inl e
      | Inr g \<Rightarrow> Inr (b\<lparr>Board_board := g, Board_index := T\<rparr>))"
  using assms
proof (induction n arbitrary: b)
  case 0
  then have "Board_index b = T" by simp
  then show ?case by (simp add: jump_set_done)
next
  case (Suc n)
  let ?b1 = "b\<lparr>Board_index := Board_index b + 1,
            Board_board := snd (RawBoard_set (Board_board b)
                                 (fst (Board_record b ! nat (Board_index b)))
                                 (snd (Board_record b ! nat (Board_index b))))\<rparr>"
  from Suc.prems have lt: "Board_index b < T" "Board_index b < int (length (Board_record b))"
    by simp_all
  have r: "Board_reset b = Inr (Some (Board_record b ! nat (Board_index b)), ?b1)"
    using Suc.prems(2) lt(2) by (rule Board_reset_eq)
  have "redo_times n ?b1 =
     (case jump_set (Board_board ?b1) (Board_record ?b1) (Board_index ?b1) T of
        Inl e \<Rightarrow> Inl e
      | Inr g \<Rightarrow> Inr (?b1\<lparr>Board_board := g, Board_index := T\<rparr>))"
    using Suc.prems lt by (intro Suc.IH) simp_all
  moreover have "redo_times (Suc n) b = redo_times n ?b1" by (simp add: r)
  moreover have "jump_set (Board_board b) (Board_record b) (Board_index b) T
      = jump_set (Board_board ?b1) (Board_record b) (Board_index b + 1) T"
    using lt Suc.prems(2) by (simp add: jump_set_step [of "Board_index b" T])
  ultimately show ?case
    by (cases "jump_set (Board_board ?b1) (Board_record b) (Board_index b + 1) T") simp_all
qed

lemma undo_times_jump_unset:
  assumes "n = nat (Board_index b - T)" "0 \<le> T" "T \<le> Board_index b"
    "Board_index b \<le> int (length (Board_record b))"
  shows "undo_times n b =
     (case jump_unset (Board_board b) (Board_record b) (Board_index b - 1) T of
        Inl e \<Rightarrow> Inl e
      | Inr g \<Rightarrow> Inr (b\<lparr>Board_board := g, Board_index := T\<rparr>))"
  using assms
proof (induction n arbitrary: b)
  case 0
  then have "Board_index b = T" by simp
  then show ?case by (simp add: jump_unset_done)
next
  case (Suc n)
  let ?b1 = "b\<lparr>Board_index := Board_index b - 1,
            Board_board := snd (RawBoard_unset (Board_board b)
                                 (fst (Board_record b ! nat (Board_index b - 1))))\<rparr>"
  from Suc.prems have lt: "T < Board_index b" "0 < Board_index b" by simp_all
  have r: "Board_unset b = Inr (Some (Board_record b ! nat (Board_index b - 1)), ?b1)"
    using lt(2) Suc.prems(4) by (rule Board_unset_eq)
  have "undo_times n ?b1 =
     (case jump_unset (Board_board ?b1) (Board_record ?b1) (Board_index ?b1 - 1) T of
        Inl e \<Rightarrow> Inl e
      | Inr g \<Rightarrow> Inr (?b1\<lparr>Board_board := g, Board_index := T\<rparr>))"
    using Suc.prems lt by (intro Suc.IH) simp_all
  moreover have "undo_times (Suc n) b = undo_times n ?b1" by (simp add: r)
  moreover have "jump_unset (Board_board b) (Board_record b) (Board_index b - 1) T
      = jump_unset (Board_board ?b1) (Board_record b) (Board_index b - 2) T"
    using lt Suc.prems(4) by (simp add: jump_unset_step [of T "Board_index b - 1"])
  ultimately show ?case
    by (cases "jump_unset (Board_board ?b1) (Board_record b) (Board_index b - 2) T") simp_all
qed

lemma Board_jump_walk_to:
  assumes "0 \<le> Board_index b" "Board_index b \<le> int (length (Board_record b))"
    "0 \<le> T" "T \<le> int (length (Board_record b))"
  shows "Board_jump b T = walk_to b T"
proof (cases "Board_index b < T")
  case True
  then show ?thesis
    using assms redo_times_jump_set [of "nat (T - Board_index b)" T b]
    by (simp add: Board_jump_def walk_to_def)
next
  case False
  then show ?thesis
    using assms undo_times_jump_unset [of "nat (Board_index b - T)" b T]
    by (simp add: Board_jump_def walk_to_def)
qed

lemma redo_times_total:
  assumes "0 \<le> Board_index b" "Board_index b + int n \<le> int (length (Board_record b))"
  shows "\<exists>b'. redo_times n b = Inr b' \<and> Board_index b' = Board_index b + int n
            \<and> Board_record b' = Board_record b"
  using assms
proof (induction n arbitrary: b)
  case 0
  then show ?case by simp
next
  case (Suc n)
  let ?b1 = "b\<lparr>Board_index := Board_index b + 1,
            Board_board := snd (RawBoard_set (Board_board b)
                                 (fst (Board_record b ! nat (Board_index b)))
                                 (snd (Board_record b ! nat (Board_index b))))\<rparr>"
  have r: "Board_reset b = Inr (Some (Board_record b ! nat (Board_index b)), ?b1)"
    using Suc.prems by (intro Board_reset_eq) simp_all
  have "\<exists>b'. redo_times n ?b1 = Inr b' \<and> Board_index b' = Board_index ?b1 + int n
            \<and> Board_record b' = Board_record ?b1"
    using Suc.prems by (intro Suc.IH) simp_all
  then obtain b' where "redo_times n ?b1 = Inr b'" "Board_index b' = Board_index ?b1 + int n"
    "Board_record b' = Board_record ?b1" by blast
  then show ?case by (simp add: r)
qed

lemma undo_times_total:
  assumes "int n \<le> Board_index b" "Board_index b \<le> int (length (Board_record b))"
  shows "\<exists>b'. undo_times n b = Inr b' \<and> Board_index b' = Board_index b - int n
            \<and> Board_record b' = Board_record b"
  using assms
proof (induction n arbitrary: b)
  case 0
  then show ?case by simp
next
  case (Suc n)
  let ?b1 = "b\<lparr>Board_index := Board_index b - 1,
            Board_board := snd (RawBoard_unset (Board_board b)
                                 (fst (Board_record b ! nat (Board_index b - 1))))\<rparr>"
  have r: "Board_unset b = Inr (Some (Board_record b ! nat (Board_index b - 1)), ?b1)"
    using Suc.prems by (intro Board_unset_eq) simp_all
  have "\<exists>b'. undo_times n ?b1 = Inr b' \<and> Board_index b' = Board_index ?b1 - int n
            \<and> Board_record b' = Board_record ?b1"
    using Suc.prems by (intro Suc.IH) simp_all
  then obtain b' where "undo_times n ?b1 = Inr b'" "Board_index b' = Board_index ?b1 - int n"
    "Board_record b' = Board_record ?b1" by blast
  then show ?case by (simp add: r)
qed

lemma walk_to_total:
  assumes "0 \<le> Board_index b" "Board_index b \<le> int (length (Board_record b))"
    "0 \<le> T" "T \<le> int (length (Board_record b))"
  shows "\<exists>b'. walk_to b T = Inr b' \<and> Board_index b' = T"
proof (cases "Board_index b < T")
  case True
  then show ?thesis
    using assms redo_times_total [of b "nat (T - Board_index b)"] by (auto simp add: walk_to_def)
next
  case False
  then show ?thesis
    using assms undo_times_total [of "nat (Board_index b - T)" b] by (auto simp add: walk_to_def)
qed

text \<open>
  Claim C3. For every board whose cursor lies within its record and every target
  \<open>T\<close> with \<open>0 \<le> T \<le>\<close> record length, \<open>jump(T)\<close> returns, and the board it leaves
  is the board reached by \<open>|T - cursor|\<close> single \<open>unset\<close> (undo) or \<open>reset\<close> (redo)
  calls (\<open>walk_to\<close>): the same grid, hence the same stone at every point, the same
  record and the same cursor \<open>T\<close>.
\<close>

theorem C3_jump_is_repeated_undo_redo:
  assumes "0 \<le> Board_index b" "Board_index b \<le> int (length (Board_record b))"
    "0 \<le> T" "T \<le> int (length (Board_record b))"
  shows "\<exists>b'. Board_jump b T = Inr b' \<and> walk_to b T = Inr b' \<and> Board_index b' = T"
  using walk_to_total [OF assms] by (simp add: Board_jump_walk_to [OF assms])

theorem C3_jump_is_repeated_undo_redo_witness:
  "\<exists>b b'. run_ops Board_new
          [Op_set (Point 0 0) Black, Op_set (Point 1 1) White, Op_set (Point (- 2) 5) White] = Inr b
      \<and> Board_jump b 1 = Inr b' \<and> walk_to b 1 = Inr b' \<and> Board_index b' = 1"
proof -
  let ?ops = "[Op_set (Point 0 0) Black, Op_set (Point 1 1) White, Op_set (Point (- 2) 5) White]"
  have "isl (run_ops Board_new ?ops) = False" by code_simp
  then obtain b where b: "run_ops Board_new ?ops = Inr b" by (cases "run_ops Board_new ?ops") simp_all
  have "Board_index (projr (run_ops Board_new ?ops)) = 3"
    "length (Board_record (projr (run_ops Board_new ?ops))) = 3" by code_simp+
  then have "Board_index b = 3" "length (Board_record b) = 3" by (simp_all only: b sum.sel)
  then have "0 \<le> Board_index b" "Board_index b \<le> int (length (Board_record b))"
    "(0::int) \<le> 1" "1 \<le> int (length (Board_record b))" by simp_all
  from C3_jump_is_repeated_undo_redo [OF this] b show ?thesis by blast
qed

section \<open>Navigation outside the record\<close>

lemma jump_unset_negative:
  assumes "n = nat (i + 1)" "T < 0" "- 1 \<le> i" "i < int (length rec)"
  shows "jump_unset g rec i T = Inl TypeError"
  using assms
proof (induction n arbitrary: i g)
  case 0
  then have "i = - 1" by simp
  then show ?case using "0.prems"(2) by (simp add: jump_unset_throw)
next
  case (Suc n)
  then have i: "0 \<le> i" "T \<le> i" by simp_all
  have "jump_unset (snd (RawBoard_unset g (fst (rec ! nat i)))) rec (i - 1) T = Inl TypeError"
    using Suc.prems i by (intro Suc.IH) simp_all
  then show ?case using i Suc.prems(4) by (simp add: jump_unset_step)
qed

lemma Board_jump_negative:
  assumes "T < 0" "0 \<le> Board_index b" "Board_index b \<le> int (length (Board_record b))"
  shows "Board_jump b T = Inl TypeError"
  using assms jump_unset_negative [of "nat (Board_index b)" "Board_index b - 1" T "Board_record b" "Board_board b"]
  by (simp add: Board_jump_def)

lemma Board_jump_beyond:
  "int (length (Board_record b)) < T \<Longrightarrow> Board_jump b T = Inr b"
  by (simp add: Board_jump_def)

text \<open>
  Claim C9. No operation throws: \<open>unset\<close> with cursor 0, \<open>reset\<close> with the cursor at
  the end of the record and \<open>jump\<close> to a target outside the record are no-ops. The
  first two and a \<open>jump\<close> beyond the end are (\<open>Board_unset_zero\<close>,
  \<open>Board_reset_end\<close>, \<open>Board_jump_beyond\<close>); a \<open>jump\<close> to a negative target is
  not: on a new board \<open>jump(-1)\<close> reads \<open>record[-1]\<close> and throws.
\<close>

theorem C9_jump_negative_throws:
  "Board_jump Board_new (- 1) = Inl TypeError"
  by (simp add: Board_jump_def Board_new_def jump_unset.simps array_at_def)

section \<open>The invariant of the board\<close>

lemma played_Nil [simp]: "played [] p = None"
  by (simp add: played_def)

lemma played_snoc:
  "played (es @ [e]) p =
     (case played es p of
        Some v \<Rightarrow> Some v
      | None \<Rightarrow> if Point_indexes p = Point_indexes (fst e) then Some (snd e) else None)"
  by (simp add: played_def map_add_def split: option.splits)

lemma played_None_iff: "played es p = None \<longleftrightarrow> Point_indexes p \<notin> set (keys_of es)"
  by (auto simp add: played_def keys_of_def map_of_eq_None_iff image_iff)

lemma keys_of_take: "keys_of (take n es) = take n (keys_of es)"
  by (simp add: keys_of_def take_map)

lemma nth_notin_take:
  assumes "distinct ks" "n < length ks"
  shows "ks ! n \<notin> set (take n ks)"
proof
  assume "ks ! n \<in> set (take n ks)"
  then obtain i where "i < length (take n ks)" "take n ks ! i = ks ! n"
    by (auto simp add: in_set_conv_nth)
  then have "i < n" "ks ! i = ks ! n" by simp_all
  then show False using assms nth_eq_iff_index_eq [of ks i n] by auto
qed

lemma keys_nth_notin_take:
  assumes "distinct (keys_of es)" "n < length es"
  shows "Point_indexes (fst (es ! n)) \<notin> set (keys_of (take n es))"
  using nth_notin_take [of "keys_of es" n] assms by (simp add: keys_of_take) (simp add: keys_of_def)

lemma played_take_Suc:
  assumes "distinct (keys_of es)" "n < length es"
  shows "played (take (Suc n) es) p =
     (if Point_indexes p = Point_indexes (fst (es ! n)) then Some (snd (es ! n))
      else played (take n es) p)"
proof -
  have "played (take n es) p = None" if "Point_indexes p = Point_indexes (fst (es ! n))"
    using keys_nth_notin_take [OF assms] that by (simp add: played_None_iff)
  then show ?thesis
    using assms(2) by (auto simp add: take_Suc_conv_app_nth played_snoc split: option.splits)
qed

lemma played_take_nth_None:
  assumes "distinct (keys_of es)" "n < length es"
  shows "played (take n es) (fst (es ! n)) = None"
  using keys_nth_notin_take [OF assms] by (simp add: played_None_iff)

lemma played_same_indexes:
  "Point_indexes q = Point_indexes p \<Longrightarrow> played es q = played es p"
  by (simp add: played_def)

lemma Board_inv_new: "Board_inv Board_new"
  using RawBoard_wf_new
  by (simp add: Board_inv_def Board_new_def keys_of_def RawBoard_get_def
        RawBoard_chunk_def RawBoard_new_def split: prod.splits)

lemma Board_inv_set:
  assumes "Board_inv b"
  shows "Board_inv (snd (Board_set b p s))"
proof (cases "RawBoard_get (Board_board b) p = None")
  case False
  then show ?thesis using assms by (simp add: Board_set_eq)
next
  case True
  let ?es = "take (nat (Board_index b)) (Board_record b)"
  from assms have wf: "RawBoard_wf (Board_board b)"
    and i: "0 \<le> Board_index b" "Board_index b \<le> int (length (Board_record b))"
    and d: "distinct (keys_of (Board_record b))"
    and g: "\<And>q. RawBoard_get (Board_board b) q = played ?es q"
    by (simp_all add: Board_inv_def)
  have notin: "Point_indexes p \<notin> set (keys_of ?es)"
    using True g [of p] by (simp add: played_None_iff)
  have d': "distinct (keys_of (?es @ [(p, s)]))"
    using d notin by (simp add: keys_of_def take_map [symmetric] distinct_take)
  have len: "nat (Board_index b + 1) = length (?es @ [(p, s)])"
    using i by (auto simp add: min_def nat_add_distrib)
  have get: "RawBoard_get (snd (RawBoard_set (Board_board b) p s)) q = played (?es @ [(p, s)]) q" for q
  proof (cases "Point_indexes q = Point_indexes p")
    case same: True
    then have "played ?es q = None"
      using True g [of q] RawBoard_get_same_indexes [OF same, of "Board_board b"] by simp
    then show ?thesis using same True by (simp add: RawBoard_get_set [OF wf] played_snoc)
  next
    case False
    then show ?thesis
      using g [of q] by (simp add: RawBoard_get_set [OF wf] played_snoc split: option.splits)
  qed
  show ?thesis
    using True i d' get wf
    by (simp add: Board_set_eq Board_inv_def splice_take RawBoard_wf_set min_def)
qed

lemma Board_inv_unset_step:
  assumes inv: "Board_inv b" and pos: "0 < Board_index b"
  shows "Board_inv (b\<lparr>Board_index := Board_index b - 1,
            Board_board := snd (RawBoard_unset (Board_board b)
                                 (fst (Board_record b ! nat (Board_index b - 1))))\<rparr>)"
proof -
  let ?n = "nat (Board_index b - 1)"
  let ?es = "Board_record b"
  from inv have wf: "RawBoard_wf (Board_board b)"
    and i: "Board_index b \<le> int (length ?es)"
    and d: "distinct (keys_of ?es)"
    and g: "\<And>q. RawBoard_get (Board_board b) q = played (take (nat (Board_index b)) ?es) q"
    by (simp_all add: Board_inv_def)
  have n: "?n < length ?es" "nat (Board_index b) = Suc ?n" using pos i by simp_all
  have "RawBoard_get (snd (RawBoard_unset (Board_board b) (fst (?es ! ?n)))) q = played (take ?n ?es) q" for q
  proof (cases "Point_indexes q = Point_indexes (fst (?es ! ?n))")
    case True
    then have "played (take ?n ?es) q = None"
      using played_take_nth_None [OF d n(1)] played_same_indexes [OF True] by simp
    then show ?thesis using True by (simp add: RawBoard_get_unset [OF wf])
  next
    case False
    then show ?thesis
      by (simp add: RawBoard_get_unset [OF wf] g n(2) played_take_Suc [OF d n(1)])
  qed
  then show ?thesis
    using wf i d pos by (simp add: Board_inv_def RawBoard_wf_unset)
qed

lemma Board_inv_reset_step:
  assumes inv: "Board_inv b" and lt: "Board_index b < int (length (Board_record b))"
  shows "Board_inv (b\<lparr>Board_index := Board_index b + 1,
            Board_board := snd (RawBoard_set (Board_board b)
                                 (fst (Board_record b ! nat (Board_index b)))
                                 (snd (Board_record b ! nat (Board_index b))))\<rparr>)"
proof -
  let ?n = "nat (Board_index b)"
  let ?es = "Board_record b"
  from inv have wf: "RawBoard_wf (Board_board b)"
    and i: "0 \<le> Board_index b"
    and d: "distinct (keys_of ?es)"
    and g: "\<And>q. RawBoard_get (Board_board b) q = played (take ?n ?es) q"
    by (simp_all add: Board_inv_def)
  have n: "?n < length ?es" "nat (Board_index b + 1) = Suc ?n" using lt i by simp_all
  have free: "RawBoard_get (Board_board b) (fst (?es ! ?n)) = None"
    using played_take_nth_None [OF d n(1)] by (simp add: g)
  have "RawBoard_get (snd (RawBoard_set (Board_board b) (fst (?es ! ?n)) (snd (?es ! ?n)))) q
          = played (take (Suc ?n) ?es) q" for q
  proof (cases "Point_indexes q = Point_indexes (fst (?es ! ?n))")
    case True
    then show ?thesis using free by (simp add: RawBoard_get_set [OF wf] played_take_Suc [OF d n(1)])
  next
    case False
    then show ?thesis by (simp add: RawBoard_get_set [OF wf] g played_take_Suc [OF d n(1)])
  qed
  then show ?thesis
    using wf i d lt by (simp add: Board_inv_def RawBoard_wf_set n(2))
qed

lemma Board_inv_unset:
  assumes "Board_inv b"
  shows "\<exists>r b'. Board_unset b = Inr (r, b') \<and> Board_inv b'"
proof (cases "Board_index b = 0")
  case True
  then show ?thesis using assms by (simp add: Board_unset_zero)
next
  case False
  with assms have "0 < Board_index b" "Board_index b \<le> int (length (Board_record b))"
    by (simp_all add: Board_inv_def)
  then show ?thesis
    using Board_inv_unset_step [OF assms] by (simp add: Board_unset_eq)
qed

lemma Board_inv_reset:
  assumes "Board_inv b"
  shows "\<exists>r b'. Board_reset b = Inr (r, b') \<and> Board_inv b'"
proof (cases "Board_index b < int (length (Board_record b))")
  case False
  then show ?thesis using assms by (simp add: Board_reset_end)
next
  case True
  moreover from assms have "0 \<le> Board_index b" by (simp add: Board_inv_def)
  ultimately show ?thesis
    using Board_inv_reset_step [OF assms] by (simp add: Board_reset_eq)
qed

lemma redo_times_inv:
  "Board_inv b \<Longrightarrow> \<exists>b'. redo_times n b = Inr b' \<and> Board_inv b'"
proof (induction n arbitrary: b)
  case 0
  then show ?case by simp
next
  case (Suc n)
  from Board_inv_reset [OF Suc.prems] obtain r b1 where "Board_reset b = Inr (r, b1)" "Board_inv b1"
    by blast
  then show ?case using Suc.IH [of b1] by simp
qed

lemma undo_times_inv:
  "Board_inv b \<Longrightarrow> \<exists>b'. undo_times n b = Inr b' \<and> Board_inv b'"
proof (induction n arbitrary: b)
  case 0
  then show ?case by simp
next
  case (Suc n)
  from Board_inv_unset [OF Suc.prems] obtain r b1 where "Board_unset b = Inr (r, b1)" "Board_inv b1"
    by blast
  then show ?case using Suc.IH [of b1] by simp
qed

lemma walk_to_inv: "Board_inv b \<Longrightarrow> \<exists>b'. walk_to b T = Inr b' \<and> Board_inv b'"
  by (simp add: walk_to_def redo_times_inv undo_times_inv)

lemma Board_inv_jump:
  assumes "Board_inv b" "Board_jump b T = Inr b'"
  shows "Board_inv b'"
proof -
  from assms(1) have i: "0 \<le> Board_index b" "Board_index b \<le> int (length (Board_record b))"
    by (simp_all add: Board_inv_def)
  consider "T < 0" | "int (length (Board_record b)) < T" | "0 \<le> T" "T \<le> int (length (Board_record b))"
    by linarith
  then show ?thesis
  proof cases
    case 1
    then show ?thesis using assms(2) i by (simp add: Board_jump_negative)
  next
    case 2
    then show ?thesis using assms by (simp add: Board_jump_beyond)
  next
    case 3
    then show ?thesis
      using assms(2) walk_to_inv [OF assms(1), of T] by (simp add: Board_jump_walk_to [OF i 3])
  qed
qed

lemma Board_inv_apply_op:
  assumes "Board_inv b" "apply_op b x = Inr b'"
  shows "Board_inv b'"
proof (cases x)
  case (Op_set p s)
  then show ?thesis using assms Board_inv_set [of b p s] by auto
next
  case Op_unset
  then show ?thesis using assms Board_inv_unset [OF assms(1)] by auto
next
  case Op_reset
  then show ?thesis using assms Board_inv_reset [OF assms(1)] by auto
next
  case (Op_jump T)
  then show ?thesis using assms Board_inv_jump [of b T b'] by simp
qed

lemma Board_inv_run_ops:
  "Board_inv b \<Longrightarrow> run_ops b ops = Inr b' \<Longrightarrow> Board_inv b'"
proof (induction ops arbitrary: b)
  case Nil
  then show ?case by simp
next
  case (Cons x xs)
  then show ?case by (auto split: sum.splits dest: Board_inv_apply_op)
qed

lemma apply_op_returns:
  assumes "Board_inv b" "jump_target_ok x"
  shows "\<exists>b'. apply_op b x = Inr b' \<and> Board_inv b'"
proof (cases x)
  case (Op_set p s)
  then show ?thesis using Board_inv_set [OF assms(1)] by simp
next
  case Op_unset
  then show ?thesis using Board_inv_unset [OF assms(1)] by auto
next
  case Op_reset
  then show ?thesis using Board_inv_reset [OF assms(1)] by auto
next
  case (Op_jump T)
  from assms(1) have i: "0 \<le> Board_index b" "Board_index b \<le> int (length (Board_record b))"
    by (simp_all add: Board_inv_def)
  have "\<exists>b'. Board_jump b T = Inr b'"
  proof (cases "T \<le> int (length (Board_record b))")
    case True
    then show ?thesis
      using walk_to_total [OF i, of T] assms(2) Op_jump by (auto simp add: Board_jump_walk_to [OF i])
  next
    case False
    then show ?thesis by (simp add: Board_jump_beyond)
  qed
  then show ?thesis using Op_jump Board_inv_jump [OF assms(1)] by auto
qed

lemma run_ops_returns_inv:
  "Board_inv b \<Longrightarrow> list_all jump_target_ok ops \<Longrightarrow> \<exists>b'. run_ops b ops = Inr b'"
proof (induction ops arbitrary: b)
  case Nil
  then show ?case by simp
next
  case (Cons x xs)
  then obtain b1 where "apply_op b x = Inr b1" "Board_inv b1"
    using apply_op_returns [of b x] by auto
  then show ?case using Cons.IH [of b1] Cons.prems(2) by simp
qed

lemma run_ops_returns:
  "list_all jump_target_ok ops \<Longrightarrow> \<exists>b. run_ops Board_new ops = Inr b"
  using Board_inv_new by (rule run_ops_returns_inv)

lemma from_record_fold:
  assumes "Board_inv b" "Board_index b = int (length (Board_record b))"
    "distinct (keys_of (Board_record b @ es))"
  shows "Board_inv (fold (\<lambda>move b. snd (Board_set b (Point (point_x (fst move)) (point_y (fst move))) (snd move))) es b)
       \<and> Board_record (fold (\<lambda>move b. snd (Board_set b (Point (point_x (fst move)) (point_y (fst move))) (snd move))) es b)
           = Board_record b @ es
       \<and> Board_index (fold (\<lambda>move b. snd (Board_set b (Point (point_x (fst move)) (point_y (fst move))) (snd move))) es b)
           = int (length (Board_record b @ es))"
  using assms
proof (induction es arbitrary: b)
  case Nil
  then show ?case by simp
next
  case (Cons e es)
  let ?b1 = "snd (Board_set b (fst e) (snd e))"
  from Cons.prems(1) have g: "\<And>q. RawBoard_get (Board_board b) q = played (take (nat (Board_index b)) (Board_record b)) q"
    by (simp add: Board_inv_def)
  have "Point_indexes (fst e) \<notin> set (keys_of (Board_record b))"
    using Cons.prems(3) by (auto simp add: keys_of_def)
  then have free: "RawBoard_get (Board_board b) (fst e) = None"
    using Cons.prems(2) by (simp add: g played_None_iff)
  have r1: "Board_record ?b1 = Board_record b @ [e]" and i1: "Board_index ?b1 = int (length (Board_record ?b1))"
    using free Cons.prems(2) by (simp_all add: Board_set_eq splice_take)
  have inv1: "Board_inv ?b1" using Cons.prems(1) by (rule Board_inv_set)
  have d1: "distinct (keys_of (Board_record ?b1 @ es))" using Cons.prems(3) by (simp add: r1)
  from Cons.IH [OF inv1 i1 d1] show ?case by (simp add: r1)
qed

lemma from_record_played:
  assumes "distinct (keys_of es)"
  shows "Board_get (from_record es) p = played es p"
proof -
  have n: "Board_index Board_new = int (length (Board_record Board_new))" "Board_record Board_new = []"
    by (simp_all add: Board_new_def)
  from from_record_fold [OF Board_inv_new n(1), of es] assms
  have "Board_inv (from_record es)" "Board_record (from_record es) = es"
    "Board_index (from_record es) = int (length es)"
    by (simp_all add: from_record_def n(2))
  then show ?thesis by (simp add: Board_inv_def Board_get_def)
qed

lemma drop_notin_take:
  assumes "distinct ks" "k \<in> set (drop n ks)"
  shows "k \<notin> set (take n ks)"
  using assms set_take_disj_set_drop_if_distinct [of ks n n] by auto

lemma Board_inv_replay:
  assumes "Board_inv b"
  shows "(\<forall>p. Board_get b p = Board_get (from_record (past_record b)) p)
     \<and> (\<forall>e \<in> set (drop (nat (Board_index b)) (Board_record b)). Board_get b (fst e) = None)"
proof -
  let ?n = "nat (Board_index b)"
  from assms have i: "0 \<le> Board_index b" "Board_index b \<le> int (length (Board_record b))"
    and d: "distinct (keys_of (Board_record b))"
    and g: "\<And>q. RawBoard_get (Board_board b) q = played (take ?n (Board_record b)) q"
    by (simp_all add: Board_inv_def)
  have pr: "past_record b = take ?n (Board_record b)"
    using i by (simp add: past_record_def slice0_take)
  have "distinct (keys_of (take ?n (Board_record b)))"
    using d by (simp add: keys_of_take distinct_take)
  then have 1: "Board_get b p = Board_get (from_record (past_record b)) p" for p
    by (simp add: pr from_record_played) (simp add: Board_get_def g)
  have 2: "Board_get b (fst e) = None" if "e \<in> set (drop ?n (Board_record b))" for e
  proof -
    from that have "Point_indexes (fst e) \<in> set (drop ?n (keys_of (Board_record b)))"
      by (simp add: keys_of_def drop_map)
    then have "Point_indexes (fst e) \<notin> set (keys_of (take ?n (Board_record b)))"
      using d by (simp add: keys_of_take drop_notin_take)
    then show ?thesis by (simp add: Board_get_def g played_None_iff)
  qed
  from 1 2 show ?thesis by blast
qed

section \<open>The grid is the replay of the record up to the cursor\<close>

text \<open>
  After every sequence of board operations (\<open>set\<close>, \<open>unset\<close>, \<open>reset\<close>, \<open>jump\<close>) in
  which each call returned, started on a new board, the grid holds at every point
  what replaying the record entries \<open>0\<close> up to the cursor (exclusive) onto an empty
  grid gives (\<open>from_record\<close> of \<open>past_record\<close>), and the points of the entries at or
  beyond the cursor are empty in the grid. Each call returns unless it is a \<open>jump\<close>
  with a negative target (\<open>run_ops_returns\<close>).
\<close>

lemma run_ops_grid_replays_record:
  assumes "run_ops Board_new ops = Inr b"
  shows "(\<forall>p. Board_get b p = Board_get (from_record (past_record b)) p)
     \<and> (\<forall>e \<in> set (drop (nat (Board_index b)) (Board_record b)). Board_get b (fst e) = None)"
  using Board_inv_run_ops [OF Board_inv_new assms] by (rule Board_inv_replay)

lemma run_ops_grid_replays_record_example:
  "\<exists>b. run_ops Board_new
          [Op_set (Point 0 0) Black, Op_set (Point 1 1) White, Op_set (Point (- 2) 5) White,
           Op_unset, Op_jump 1, Op_reset] = Inr b
      \<and> Board_index b = 2
      \<and> (\<forall>p. Board_get b p = Board_get (from_record (past_record b)) p)
      \<and> (\<forall>e \<in> set (drop (nat (Board_index b)) (Board_record b)). Board_get b (fst e) = None)"
proof -
  let ?ops = "[Op_set (Point 0 0) Black, Op_set (Point 1 1) White, Op_set (Point (- 2) 5) White,
           Op_unset, Op_jump 1, Op_reset]"
  have "isl (run_ops Board_new ?ops) = False" by code_simp
  then obtain b where b: "run_ops Board_new ?ops = Inr b" by (cases "run_ops Board_new ?ops") simp_all
  have "Board_index (projr (run_ops Board_new ?ops)) = 2" by code_simp
  then have "Board_index b = 2" by (simp only: b sum.sel)
  then show ?thesis using run_ops_grid_replays_record [OF b] b by blast
qed

section \<open>The object after a jump that throws\<close>

lemma jump_set_object_result:
  "jump_set g rec i index =
     (case jump_set_object g rec i index of (g', None) \<Rightarrow> Inr g' | (g', Some e) \<Rightarrow> Inl e)"
proof (induction g rec i index rule: jump_set_object.induct)
  case (1 g rec i index)
  show ?case
  proof (cases "i < index")
    case False
    then show ?thesis
      by (subst jump_set.simps, subst jump_set_object.simps) simp
  next
    case True
    show ?thesis
    proof (cases "array_at rec i")
      case None
      with True show ?thesis
        by (subst jump_set.simps, subst jump_set_object.simps) simp
    next
      case (Some e)
      with True "1.IH" [OF True Some] show ?thesis
        by (subst jump_set.simps, subst jump_set_object.simps) simp
    qed
  qed
qed

lemma jump_unset_object_result:
  "jump_unset g rec i index =
     (case jump_unset_object g rec i index of (g', None) \<Rightarrow> Inr g' | (g', Some e) \<Rightarrow> Inl e)"
proof (induction g rec i index rule: jump_unset_object.induct)
  case (1 g rec i index)
  show ?case
  proof (cases "index \<le> i")
    case False
    then show ?thesis
      by (subst jump_unset.simps, subst jump_unset_object.simps) simp
  next
    case True
    show ?thesis
    proof (cases "array_at rec i")
      case None
      with True show ?thesis
        by (subst jump_unset.simps, subst jump_unset_object.simps) simp
    next
      case (Some e)
      with True "1.IH" [OF True Some] show ?thesis
        by (subst jump_unset.simps, subst jump_unset_object.simps) simp
    qed
  qed
qed

lemma Board_jump_object_result:
  "Board_jump b index =
     (case Board_jump_object b index of (b', None) \<Rightarrow> Inr b' | (b', Some e) \<Rightarrow> Inl e)"
proof -
  consider "index > int (length (Board_record b))"
    | "\<not> index > int (length (Board_record b))" "Board_index b < index"
    | "\<not> index > int (length (Board_record b))" "\<not> Board_index b < index"
    by blast
  then show ?thesis
  proof cases
    case 1
    then show ?thesis by (simp add: Board_jump_def Board_jump_object_def)
  next
    case 2
    obtain g e where r: "jump_set_object (Board_board b) (Board_record b) (Board_index b) index = (g, e)"
      by (cases "jump_set_object (Board_board b) (Board_record b) (Board_index b) index")
    show ?thesis
      using 2 by (cases e) (simp_all add: Board_jump_def Board_jump_object_def jump_set_object_result r)
  next
    case 3
    obtain g e where r: "jump_unset_object (Board_board b) (Board_record b) (Board_index b - 1) index = (g, e)"
      by (cases "jump_unset_object (Board_board b) (Board_record b) (Board_index b - 1) index")
    show ?thesis
      using 3 by (cases e) (simp_all add: Board_jump_def Board_jump_object_def jump_unset_object_result r)
  qed
qed

text \<open>
  Claim C2. After any sequence of board operations the grid is the replay of the
  record entries \<open>0\<close> up to the cursor (exclusive) onto an empty grid. The code
  breaks this at a \<open>jump\<close> with a negative target: on the board after three moves,
  \<open>jump(-1)\<close> unsets the three moves, reads \<open>record[-1]\<close> and throws before it sets
  the cursor. The object is left with cursor 3 and an empty grid, while the replay
  of its three entries has Black at (0, 0).
\<close>

theorem C2_jump_negative_breaks_replay:
  "snd (Board_jump_object
          (snd (Board_set (snd (Board_set (snd (Board_set Board_new
             (Point 0 0) Black)) (Point 1 1) White)) (Point (- 2) 5) White)) (- 1))
     = Some TypeError
   \<and> Board_index (fst (Board_jump_object
          (snd (Board_set (snd (Board_set (snd (Board_set Board_new
             (Point 0 0) Black)) (Point 1 1) White)) (Point (- 2) 5) White)) (- 1))) = 3
   \<and> Board_get (fst (Board_jump_object
          (snd (Board_set (snd (Board_set (snd (Board_set Board_new
             (Point 0 0) Black)) (Point 1 1) White)) (Point (- 2) 5) White)) (- 1))) (Point 0 0)
       = None
   \<and> Board_get (from_record (past_record (fst (Board_jump_object
          (snd (Board_set (snd (Board_set (snd (Board_set Board_new
             (Point 0 0) Black)) (Point 1 1) White)) (Point (- 2) 5) White)) (- 1))))) (Point 0 0)
       = Some Black"
proof -
  let ?B = "snd (Board_set (snd (Board_set (snd (Board_set Board_new
             (Point 0 0) Black)) (Point 1 1) White)) (Point (- 2) 5) White)"
  have 1: "snd (Board_jump_object ?B (- 1)) = Some TypeError" by code_simp
  have 2: "Board_index (fst (Board_jump_object ?B (- 1))) = 3" by code_simp
  have 3: "Board_get (fst (Board_jump_object ?B (- 1))) (Point 0 0) = None" by code_simp
  have p: "past_record (fst (Board_jump_object ?B (- 1)))
             = [(Point 0 0, Black), (Point 1 1, White), (Point (- 2) 5, White)]"
    by code_simp
  have f: "from_record [(Point 0 0, Black), (Point 1 1, White), (Point (- 2) 5, White)] = ?B"
    by (simp add: from_record_def)
  have g: "Board_get ?B (Point 0 0) = Some Black" by code_simp
  have 4: "Board_get (from_record (past_record (fst (Board_jump_object ?B (- 1))))) (Point 0 0)
             = Some Black"
    by (simp only: p f g)
  from 1 2 3 4 show ?thesis by (simp only: simp_thms)
qed

end
